theory Spec2Isabelle
  imports Main "HOL-Library.Word"
begin

unbundle bit_operations_syntax

section \<open>Machine integers of the math header\<close>

text \<open>
  The header \<^verbatim>\<open>math.h\<close> of hydrazine is a set of function templates over the C++ integer
  types. A value of a \<open>W\<close>-bit type is a \<open>'a word\<close> with \<open>LENGTH('a) = W\<close>; the same bits are
  read as two's complement when the template is instantiated with a signed type and as a
  natural number when it is instantiated with an unsigned one. Where the C++ semantics of
  an operator depends on that reading, the function of the model takes the
  \<open>signedness\<close> of the instantiated type as its first argument.
\<close>

datatype signedness = Signed | Unsigned

text \<open>The mathematical value of an operand of the instantiated type.\<close>

definition cvalue :: "signedness \<Rightarrow> 'a::len word \<Rightarrow> int" where
  "cvalue sg v = (case sg of Signed \<Rightarrow> sint v | Unsigned \<Rightarrow> uint v)"

text \<open>
  \<^verbatim>\<open>value >> n\<close> for \<open>n\<close> below the width: arithmetic on a signed type (the sign bit is
  copied in, also after the integer promotion of an 8- or 16-bit type), logical on an
  unsigned one.
\<close>

definition shr :: "signedness \<Rightarrow> 'a::len word \<Rightarrow> nat \<Rightarrow> 'a word" where
  "shr sg v n = (case sg of Signed \<Rightarrow> signed_drop_bit n v | Unsigned \<Rightarrow> drop_bit n v)"

text \<open>
  What a run of the code can end in besides a value: a failed \<^verbatim>\<open>assert\<close>, or a shift
  whose count is not below the width of its (promoted) left operand, which C++ leaves
  undefined.
\<close>

datatype fault = AssertionFailed | UndefinedShift

section \<open>Power of two checks\<close>

text \<open>
  \<^verbatim>\<open>return (value & (~value+1)) == value;\<close> The overloads for \<^verbatim>\<open>int\<close> and
  \<^verbatim>\<open>unsigned int\<close> have the same body.
\<close>

definition isPowerOfTwo :: "32 word \<Rightarrow> bool" where
  "isPowerOfTwo v = (v AND (NOT v + 1) = v)"

text \<open>
  \<^verbatim>\<open>assert( value != 0 ); return value1 & ( value - 1 );\<close> Again one body for both
  overloads.
\<close>

definition modPowerOfTwo :: "32 word \<Rightarrow> 32 word \<Rightarrow> fault + 32 word" where
  "modPowerOfTwo value1 v = (if v \<noteq> 0 then Inr (value1 AND (v - 1)) else Inl AssertionFailed)"

text \<open>The fill-and-increment round-up on \<^verbatim>\<open>unsigned int\<close>, statement by statement.\<close>

definition powerOfTwo :: "32 word \<Rightarrow> 32 word" where
  "powerOfTwo v =
    (let v = v - 1;
         v = v OR drop_bit 1 v;
         v = v OR drop_bit 2 v;
         v = v OR drop_bit 4 v;
         v = v OR drop_bit 8 v;
         v = v OR drop_bit 16 v;
         v = v + 1
     in v)"

section \<open>Bit manipulation\<close>

text \<open>
  \<^verbatim>\<open>countLeadingZeros\<close>: the loop runs while \<^verbatim>\<open>count < max\<close> and the top bit of
  \<^verbatim>\<open>value\<close> is clear, shifting \<^verbatim>\<open>value\<close> left by one. The counter is at most the
  width, so it is a \<open>nat\<close>. The test \<^verbatim>\<open>(value & mask) == 0\<close> reads the top bit of
  \<^verbatim>\<open>value\<close> whatever the signedness, so the function takes no signedness.
\<close>

function countLeadingZeros_loop :: "nat \<Rightarrow> 'a::len word \<Rightarrow> 'a word \<Rightarrow> nat \<Rightarrow> nat" where
  "countLeadingZeros_loop mx msk v count =
    (if count < mx \<and> v AND msk = 0
     then countLeadingZeros_loop mx msk (push_bit 1 v) (count + 1)
     else count)"
  by pat_completeness auto
termination
  by (relation "measure (\<lambda>(mx, msk, v, count). mx - count)") auto

declare countLeadingZeros_loop.simps [simp del]

definition countLeadingZeros :: "'a::len word \<Rightarrow> nat" where
  "countLeadingZeros v =
    (let mx = LENGTH('a);
         msk = push_bit (mx - 1) (1 :: 'a word)
     in countLeadingZeros_loop mx msk v 0)"

text \<open>
  \<^verbatim>\<open>popc\<close>: \<^verbatim>\<open>while( value != 0 ) { if( value & 1 ) ++count; value >>= 1; }\<close>
  Nothing bounds the number of iterations, so the loop is a partial function and not
  returning is the value \<open>None\<close>.
\<close>

partial_function (option) popc_loop :: "signedness \<Rightarrow> 'a::len word \<Rightarrow> nat \<Rightarrow> nat option" where
  "popc_loop sg v count =
    (if v \<noteq> 0
     then popc_loop sg (shr sg v 1) (if v AND 1 \<noteq> 0 then count + 1 else count)
     else Some count)"

declare popc_loop.simps [code]

definition popc :: "signedness \<Rightarrow> 'a::len word \<Rightarrow> nat option" where
  "popc sg v = popc_loop sg v 0"

text \<open>
  \<^verbatim>\<open>bfind\<close>. The literal in \<^verbatim>\<open>1 << i\<close> is an \<^verbatim>\<open>int\<close>, so the shift is a 32-bit one
  whatever the instantiated type: for \<open>i < 32\<close> its value is the \<^verbatim>\<open>int\<close> with bit \<open>i\<close>
  set (\<open>INT_MIN\<close> for \<open>i = 31\<close>), for \<open>i \<ge> 32\<close> the behaviour is undefined.
\<close>

definition int_one_shl :: "nat \<Rightarrow> fault + int" where
  "int_one_shl i = (if i < 32 then Inr (sint (push_bit i (1 :: 32 word))) else Inl UndefinedShift)"

text \<open>
  \<^verbatim>\<open>value & ( 1 << i )\<close> is evaluated in the common type of the two operands, to which
  \<^verbatim>\<open>value\<close> is zero or sign extended and the \<^verbatim>\<open>int\<close> sign extended. Below the width of
  that type the result has the bits of the conjunction of the two mathematical values
  (a negative value being an infinite two's-complement string), and that conjunction has
  bits above it only when both values are negative, in which case the result has its sign
  bit set. So the result is nonzero exactly when the conjunction of the mathematical values
  is. The loop counts \<open>i\<close> from \<open>msb\<close> down to 0; the argument of the model is \<open>i + 1\<close>.
\<close>

fun bfind_loop :: "signedness \<Rightarrow> 'a::len word \<Rightarrow> nat \<Rightarrow> fault + 32 word" where
  "bfind_loop sg v 0 = Inr (- 1)"
| "bfind_loop sg v (Suc i) =
    (case int_one_shl i of
       Inl e \<Rightarrow> Inl e
     | Inr m \<Rightarrow> if cvalue sg v AND m \<noteq> 0 then Inr (of_nat i) else bfind_loop sg v i)"

definition bfind :: "signedness \<Rightarrow> 'a::len word \<Rightarrow> bool \<Rightarrow> fault + 32 word" where
  "bfind sg v shiftAmount =
    (let msb = LENGTH('a) - 1 in
     case bfind_loop sg v (Suc msb) of
       Inl e \<Rightarrow> Inl e
     | Inr d \<Rightarrow> Inr (if shiftAmount then (if d \<noteq> - 1 then of_nat msb - d else d) else d))"

text \<open>
  \<^verbatim>\<open>bitExtract\<close>: \<^verbatim>\<open>value >>= position; value &= 1; value <<= position;\<close> Here and
  in \<^verbatim>\<open>bitInsert\<close> the shift count is the position argument, which the callers keep below
  the width; the model shifts as words do for every count (all bits are shifted out from
  the width on), where C++ defines nothing from the width of the promoted operand on.
\<close>

definition bitExtract :: "signedness \<Rightarrow> 'a::len word \<Rightarrow> nat \<Rightarrow> 'a word" where
  "bitExtract sg v position = push_bit position (shr sg v position AND 1)"

text \<open>
  \<^verbatim>\<open>bit &= 1; bit <<= position; type mask = ~bit; value &= mask; value |= bit;\<close>
\<close>

definition bitInsert :: "'a::len word \<Rightarrow> 'a word \<Rightarrow> nat \<Rightarrow> 'a word" where
  "bitInsert v b position =
    (let b = b AND 1;
         b = push_bit position b;
         msk = NOT b;
         v = v AND msk;
         v = v OR b
     in v)"

text \<open>
  \<^verbatim>\<open>brev\<close>: \<^verbatim>\<open>for( unsigned int i = 0; i <= msb; ++i )
  result = bitInsert( result, bitExtract( value, msb - i ), i );\<close>
\<close>

function brev_loop :: "signedness \<Rightarrow> 'a::len word \<Rightarrow> nat \<Rightarrow> nat \<Rightarrow> 'a word \<Rightarrow> 'a word" where
  "brev_loop sg v msb i result =
    (if i \<le> msb
     then brev_loop sg v msb (i + 1) (bitInsert result (bitExtract sg v (msb - i)) i)
     else result)"
  by pat_completeness auto
termination
  by (relation "measure (\<lambda>(sg, v, msb, i, result). Suc msb - i)") auto

declare brev_loop.simps [simp del]

definition brev :: "signedness \<Rightarrow> 'a::len word \<Rightarrow> 'a word" where
  "brev sg v = brev_loop sg v (LENGTH('a) - 1) 0 0"

section \<open>Extended precision\<close>

text \<open>
  Modelled from the spec: \<^verbatim>\<open>isNegative\<close> and \<^verbatim>\<open>SignedToUnsigned\<close> are declared in
  \<^verbatim>\<open>MetaProgramming.h\<close>, which is not among the sources. The spec describes them as the
  sign test and as the mapping of a signed type to the unsigned type of the same width;
  the latter leaves the bits of a word as they are.
\<close>

definition isNegative :: "signedness \<Rightarrow> 'a::len word \<Rightarrow> bool" where
  "isNegative sg v = (case sg of Signed \<Rightarrow> sint v < 0 | Unsigned \<Rightarrow> False)"

text \<open>
  \<^verbatim>\<open>multiplyHiLo\<close>, statement by statement. After the two conditional negations every
  operation is on \<^verbatim>\<open>utype\<close>, where shifts are logical and arithmetic wraps; the signed
  negations \<^verbatim>\<open>-r0\<close>, \<^verbatim>\<open>-r1\<close>, \<^verbatim>\<open>-lo\<close> and the subtraction in \<^verbatim>\<open>upperMask\<close> wrap as
  two's complement does.
\<close>

definition multiplyHiLo :: "signedness \<Rightarrow> 'a::len word \<Rightarrow> 'a word \<Rightarrow> 'a word \<times> 'a word" where
  "multiplyHiLo sg r0 r1 =
    (let r0Signed = isNegative sg r0;
         r1Signed = isNegative sg r1;
         r0 = (if r0Signed then - r0 else r0);
         r1 = (if r1Signed then - r1 else r1);
         negative = ((r0Signed \<and> \<not> r1Signed) \<or> (r1Signed \<and> \<not> r0Signed));
         bits = LENGTH('a) div 2;
         msk = push_bit bits (1 :: 'a word) - 1;
         a = drop_bit bits r0;
         b = r0 AND msk;
         c = drop_bit bits r1;
         d = r1 AND msk;
         da = d * a;
         db = d * b;
         ca = c * a;
         cb = c * b;
         totalBits = LENGTH('a) - 1;
         upperMask = push_bit totalBits (1 :: 'a word) - 1;
         daUpper = drop_bit totalBits da;
         cbUpper = drop_bit totalBits cb;
         xCarryIn = drop_bit totalBits ((da AND upperMask) + (cb AND upperMask));
         xCarryOut = drop_bit 1 (daUpper + cbUpper + xCarryIn);
         x = da + cb;
         xUpper = drop_bit totalBits x;
         yCarryIn = drop_bit totalBits ((x AND upperMask) + drop_bit bits db);
         yCarryOut = drop_bit 1 (yCarryIn + xUpper);
         y = drop_bit bits db + x;
         lo = (db AND msk) OR push_bit bits (y AND msk);
         hi = drop_bit bits y + ca + push_bit bits (yCarryOut + xCarryOut);
         loUpperBit = drop_bit totalBits (NOT lo);
         signCarryIn = drop_bit totalBits ((NOT lo AND upperMask) + 1);
         signCarryOut = drop_bit 1 (loUpperBit + signCarryIn);
         lo' = (if negative then - lo else lo);
         hi' = (if negative then NOT hi + signCarryOut else hi)
     in (hi', lo'))"

text \<open>
  \<^verbatim>\<open>addHiLo\<close>: the three operands are converted to \<^verbatim>\<open>utype\<close>, added there, and the
  results converted back; none of the conversions changes a bit.
\<close>

definition addHiLo :: "'a::len word \<Rightarrow> 'a word \<Rightarrow> 'a word \<Rightarrow> 'a word \<times> 'a word" where
  "addHiLo hi lo r0 =
    (let uHi = hi;
         uLo = lo;
         uR0 = r0;
         loResult = uR0 + uLo;
         carry = (if loResult < uR0 \<or> loResult < uLo then 1 else 0);
         hiResult = uHi + carry
     in (hiResult, loResult))"

text \<open>
  The double-width value that a pair \<open>(hi, lo)\<close> stands for: \<open>lo\<close> is the unsigned low
  half, \<open>hi\<close> the high half, read as the instantiated type reads it.
\<close>

definition hilo_value :: "signedness \<Rightarrow> 'a::len word \<times> 'a word \<Rightarrow> int" where
  "hilo_value sg p = cvalue sg (fst p) * 2 ^ LENGTH('a) + uint (snd p)"

section \<open>Notions for the statements and the proofs\<close>

text \<open>
  The powers of two among the 32-bit values, as the specification of \<^verbatim>\<open>modPowerOfTwo\<close>
  and \<^verbatim>\<open>powerOfTwo\<close> means them: zero is not one of them.
\<close>

definition power_of_two :: "32 word \<Rightarrow> bool" where
  "power_of_two p = (p \<in> set (map (\<lambda>k. 2 ^ k) [0..<32]))"

text \<open>
  What the loop of \<^verbatim>\<open>countLeadingZeros\<close> establishes when it is entered with the counter
  \<open>c\<close> and returns \<open>r\<close>: the top \<open>r - c\<close> bits of the value it was entered with are
  clear, and the next one is set unless the counter has reached the width.
\<close>

definition clz_post :: "'a::len word \<Rightarrow> nat \<Rightarrow> nat \<Rightarrow> bool" where
  "clz_post v c r \<longleftrightarrow> c \<le> r \<and> r \<le> LENGTH('a) \<and>
     (\<forall>j. c \<le> j \<and> j < r \<longrightarrow> \<not> bit v (LENGTH('a) - 1 - (j - c))) \<and>
     (r < LENGTH('a) \<longrightarrow> bit v (LENGTH('a) - 1 - (r - c)))"

text \<open>The Hamming weight of a word: the number of its set bits.\<close>

definition hamming_weight :: "'a::len word \<Rightarrow> nat" where
  "hamming_weight v = card {n. bit v n}"

text \<open>
  The five \<^verbatim>\<open>value |= value >> n\<close> statements of \<^verbatim>\<open>powerOfTwo\<close> on their own, between its
  decrement and its increment.
\<close>

definition fill :: "32 word \<Rightarrow> 32 word" where
  "fill m =
    (let v = m;
         v = v OR drop_bit 1 v;
         v = v OR drop_bit 2 v;
         v = v OR drop_bit 4 v;
         v = v OR drop_bit 8 v;
         v = v OR drop_bit 16 v
     in v)"

text \<open>The number of bits up to and including the highest set one; 0 for the value 0.\<close>

definition bit_length :: "32 word \<Rightarrow> nat" where
  "bit_length m = (if m = 0 then 0 else Suc (Max {j. bit m j}))"

text \<open>
  The body of \<^verbatim>\<open>multiplyHiLo\<close> in two parts, for the proofs: the statements from
  \<^verbatim>\<open>bits\<close> to the first assignment of \<^verbatim>\<open>hi\<close>, which multiply two unsigned operands,
  and the statements after it, which negate the pair. \<open>multiplyHiLo_decomp\<close> shows that
  \<^verbatim>\<open>multiplyHiLo\<close> is their composition.
\<close>

definition mul_unsigned :: "'a::len word \<Rightarrow> 'a word \<Rightarrow> 'a word \<times> 'a word" where
  "mul_unsigned r0 r1 =
    (let bits = LENGTH('a) div 2;
         msk = push_bit bits (1 :: 'a word) - 1;
         a = drop_bit bits r0;
         b = r0 AND msk;
         c = drop_bit bits r1;
         d = r1 AND msk;
         da = d * a;
         db = d * b;
         ca = c * a;
         cb = c * b;
         totalBits = LENGTH('a) - 1;
         upperMask = push_bit totalBits (1 :: 'a word) - 1;
         daUpper = drop_bit totalBits da;
         cbUpper = drop_bit totalBits cb;
         xCarryIn = drop_bit totalBits ((da AND upperMask) + (cb AND upperMask));
         xCarryOut = drop_bit 1 (daUpper + cbUpper + xCarryIn);
         x = da + cb;
         xUpper = drop_bit totalBits x;
         yCarryIn = drop_bit totalBits ((x AND upperMask) + drop_bit bits db);
         yCarryOut = drop_bit 1 (yCarryIn + xUpper);
         y = drop_bit bits db + x;
         lo = (db AND msk) OR push_bit bits (y AND msk);
         hi = drop_bit bits y + ca + push_bit bits (yCarryOut + xCarryOut)
     in (hi, lo))"

definition negate_hilo :: "'a::len word \<times> 'a word \<Rightarrow> 'a word \<times> 'a word" where
  "negate_hilo p =
    (let hi = fst p;
         lo = snd p;
         totalBits = LENGTH('a) - 1;
         upperMask = push_bit totalBits (1 :: 'a word) - 1;
         loUpperBit = drop_bit totalBits (NOT lo);
         signCarryIn = drop_bit totalBits ((NOT lo AND upperMask) + 1);
         signCarryOut = drop_bit 1 (loUpperBit + signCarryIn)
     in (NOT hi + signCarryOut, - lo))"

text \<open>
  The carry out of the addition of two words as \<^verbatim>\<open>multiplyHiLo\<close> computes it, without a
  wider type: the two top bits and the carry into the top bit are added and halved.
\<close>

definition carry_out :: "'a::len word \<Rightarrow> 'a word \<Rightarrow> 'a word" where
  "carry_out p q =
    (let totalBits = LENGTH('a) - 1;
         upperMask = push_bit totalBits (1 :: 'a word) - 1
     in drop_bit 1 (drop_bit totalBits p + drop_bit totalBits q
          + drop_bit totalBits ((p AND upperMask) + (q AND upperMask))))"

section \<open>Auxiliary facts about words\<close>

lemma power_of_two_iff: "power_of_two p \<longleftrightarrow> (\<exists>k<32. p = 2 ^ k)"
  by (auto simp: power_of_two_def)

lemma and_pow2_minus_1: "(v::'a::len word) AND (2 ^ k - 1) = take_bit k v"
  by (simp only: take_bit_eq_mask mask_eq_exp_minus_1)

lemma uint_pow2: "k < 32 \<Longrightarrow> uint (2 ^ k :: 32 word) = 2 ^ k"
  by (rule uint_2p) (simp add: word_gt_0)

lemma sint_pow2:
  assumes "k < 31"
  shows "sint (2 ^ k :: 32 word) = 2 ^ k"
proof -
  have "(2::int) ^ k < 2 ^ 31"
    using assms by (intro power_strict_increasing) simp_all
  moreover have "- ((2::int) ^ 31) \<le> 2 ^ k"
    by (rule order_trans [of _ 0]) simp_all
  ultimately have "signed_take_bit 31 ((2::int) ^ k) = 2 ^ k"
    by (intro signed_take_bit_int_eq_self) simp_all
  with assms show ?thesis
    by (simp add: sint_uint uint_pow2)
qed

lemma mod_pow2_uint: "uint ((v::32 word) AND (2 ^ k - 1)) = uint v mod 2 ^ k"
proof -
  have "uint (take_bit k v) = take_bit k (uint v)"
    by (rule unsigned_take_bit_eq)
  also have "\<dots> = uint v mod 2 ^ k"
    by (rule take_bit_eq_mod)
  finally show ?thesis
    by (simp only: and_pow2_minus_1)
qed

lemma mod_pow2_sint:
  assumes "k < 32"
  shows "sint ((v::32 word) AND (2 ^ k - 1)) = sint v mod 2 ^ k"
proof -
  have "sint (take_bit k v) = take_bit k (sint v)"
    using assms by (simp only: signed_take_bit_eq) simp
  also have "\<dots> = sint v mod 2 ^ k"
    by (rule take_bit_eq_mod)
  finally show ?thesis
    by (simp only: and_pow2_minus_1)
qed

section \<open>bitInsert\<close>

lemma bitInsert_eq_or: "bitInsert v b position = v OR push_bit position (b AND 1)"
  unfolding bitInsert_def Let_def
  by (rule bit_word_eqI) (auto simp: bit_simps)

text \<open>
  Claim C10. Whatever the value, the position and the width, \<^verbatim>\<open>bitInsert\<close> of a bit
  argument whose least significant bit is 0 returns the value as it was: the mask is the
  complement of the shifted bit, so for a zero bit it is all ones and nothing is cleared.
\<close>

theorem bitInsert_zero_bit_unchanged:
  "b AND 1 = 0 \<Longrightarrow> bitInsert v b position = v"
  by (simp add: bitInsert_def)

theorem bitInsert_zero_bit_unchanged_witness:
  "(6 :: 8 word) AND 1 = 0 \<and> bitInsert (255 :: 8 word) 6 3 = 255"
  using bitInsert_zero_bit_unchanged [of "6 :: 8 word" 255 3] by simp

text \<open>
  Claim C2, at the input where the code departs from it. Inserting the bit 0 at position 3
  of the 8-bit value \<open>0xFF\<close> should give \<open>0xF7\<close>; the code returns \<open>0xFF\<close>, with bit 3
  still set.
\<close>

theorem bitInsert_does_not_clear:
  "bitInsert (255 :: 8 word) 0 3 = 255 \<and> bit (bitInsert (255 :: 8 word) 0 3) 3"
  by (simp add: bitInsert_def)

section \<open>modPowerOfTwo\<close>

text \<open>
  Claim C8 as stated fails: 3 is not a power of two, and \<^verbatim>\<open>modPowerOfTwo(5, 3)\<close> does
  not fail its assertion but returns \<open>5 & 2 = 0\<close> (which is not \<open>5 mod 3\<close> either).
\<close>

theorem modPowerOfTwo_three_counterexample:
  "\<not> power_of_two 3 \<and> modPowerOfTwo 5 3 = Inr 0"
  by (simp add: power_of_two_def modPowerOfTwo_def upt_rec)

text \<open>
  Claim C8, amended. The assertion of \<^verbatim>\<open>modPowerOfTwo(v, p)\<close> fails exactly when
  \<open>p = 0\<close>; for every other \<open>p\<close> the call returns \<open>v & (p - 1)\<close>. When \<open>p\<close> is a power of
  two, which is not 0, that value is \<open>v mod p\<close> for the unsigned overload, and for the signed
  overload whenever \<open>p\<close> is positive as an \<^verbatim>\<open>int\<close>.
\<close>

theorem modPowerOfTwo_asserts_iff_zero:
  "(modPowerOfTwo v p = Inl AssertionFailed \<longleftrightarrow> p = 0) \<and>
   (p \<noteq> 0 \<longrightarrow> modPowerOfTwo v p = Inr (v AND (p - 1))) \<and>
   (power_of_two p \<longrightarrow>
      p \<noteq> 0 \<and>
      uint (v AND (p - 1)) = uint v mod uint p \<and>
      (0 < sint p \<longrightarrow> sint (v AND (p - 1)) = sint v mod sint p))"
proof (intro conjI impI)
  show "modPowerOfTwo v p = Inl AssertionFailed \<longleftrightarrow> p = 0"
    by (simp add: modPowerOfTwo_def)
  show "modPowerOfTwo v p = Inr (v AND (p - 1))" if "p \<noteq> 0"
    using that by (simp add: modPowerOfTwo_def)
next
  assume "power_of_two p"
  then obtain k where k: "k < 32" "p = 2 ^ k"
    by (auto simp: power_of_two_iff)
  then show "p \<noteq> 0"
    by simp
  show "uint (v AND (p - 1)) = uint v mod uint p"
    using k by (simp only: mod_pow2_uint uint_pow2)
  assume pos: "0 < sint p"
  have "k \<noteq> 31"
    using pos k by auto
  with k have "k < 31"
    by simp
  then show "sint (v AND (p - 1)) = sint v mod sint p"
    using k by (simp only: mod_pow2_sint sint_pow2)
qed

theorem modPowerOfTwo_asserts_iff_zero_witness:
  "power_of_two 8 \<and> (8 :: 32 word) \<noteq> 0 \<and> 0 < sint (8 :: 32 word) \<and>
   modPowerOfTwo (- 3) 8 = Inr 5 \<and>
   uint (- 3 AND (8 - 1) :: 32 word) = uint (- 3 :: 32 word) mod uint (8 :: 32 word) \<and>
   sint (- 3 AND (8 - 1) :: 32 word) = sint (- 3 :: 32 word) mod sint (8 :: 32 word) \<and>
   modPowerOfTwo 7 0 = Inl AssertionFailed"
proof -
  have p: "power_of_two 8"
    by (simp add: power_of_two_def upt_rec)
  have s: "0 < sint (8 :: 32 word)"
    by simp
  show ?thesis
    using p s modPowerOfTwo_asserts_iff_zero [of "- 3" 8] modPowerOfTwo_asserts_iff_zero [of 7 0]
    by simp
qed

section \<open>addHiLo\<close>

lemma hilo_mod:
  fixes a r N :: int
  assumes "0 \<le> r" "r < N"
  shows "(a * N + r) mod (N * N) = (a mod N) * N + r"
proof -
  have N: "0 < N" "N \<noteq> 0" "0 \<le> N"
    using assms by simp_all
  have d: "(a * N + r) div N = a"
    using assms N by (simp add: div_pos_pos_trivial)
  have m: "(a * N + r) mod N = r"
    using assms by (simp add: mod_pos_pos_trivial)
  show ?thesis
    using zmod_zmult2_eq [OF N(3), of "a * N + r" N]
    by (simp only: d m) (simp add: mult.commute)
qed

lemma addHiLo_carry_iff:
  "(r0 + lo < r0 \<or> r0 + lo < lo) \<longleftrightarrow> 2 ^ LENGTH('a) \<le> uint lo + uint r0"
  for r0 lo :: "'a::len word"
proof -
  have "r0 + lo < lo \<longleftrightarrow> \<not> uint r0 + uint lo < 2 ^ LENGTH('a)"
    using no_olen_add' [of lo r0] by (simp flip: not_le)
  moreover have "r0 + lo < r0 \<longleftrightarrow> \<not> uint lo + uint r0 < 2 ^ LENGTH('a)"
    using no_olen_add' [of r0 lo] by (simp add: add.commute flip: not_le)
  moreover have "uint r0 + uint lo = uint lo + uint r0"
    by simp
  ultimately show ?thesis
    by auto
qed

lemma uint_add_cases:
  fixes a b :: "'a::len word"
  shows "uint (a + b) = uint a + uint b - (if 2 ^ LENGTH('a) \<le> uint a + uint b then 1 else 0) * 2 ^ LENGTH('a)"
proof -
  have lt: "uint a + uint b < 2 * 2 ^ LENGTH('a)"
    using uint_lt2p [of a] uint_lt2p [of b] by linarith
  have ge: "0 \<le> uint a + uint b" by simp
  show ?thesis
  proof (cases "2 ^ LENGTH('a) \<le> uint a + uint b")
    case True
    have "(uint a + uint b) mod 2 ^ LENGTH('a) = (uint a + uint b - 2 ^ LENGTH('a)) mod 2 ^ LENGTH('a)"
      by (rule mod_pos_geq [OF _ True]) simp
    also have "\<dots> = uint a + uint b - 2 ^ LENGTH('a)"
      using True lt by (intro mod_pos_pos_trivial) linarith+
    finally have "(uint a + uint b) mod 2 ^ LENGTH('a) = uint a + uint b - 2 ^ LENGTH('a)" .
    with True show ?thesis by (simp add: uint_word_ariths)
  next
    case False
    then have "(uint a + uint b) mod 2 ^ LENGTH('a) = uint a + uint b"
      by (simp add: mod_pos_pos_trivial)
    with False show ?thesis by (simp add: uint_word_ariths)
  qed
qed

lemma uint_add_carry_range:
  fixes a b :: "'a::len word"
  defines "r \<equiv> uint a + uint b - (if 2 ^ LENGTH('a) \<le> uint a + uint b then 1 else 0) * 2 ^ LENGTH('a)"
  shows "0 \<le> r" "r < 2 ^ LENGTH('a)"
  using uint_lt2p [of "a + b"] uint_ge_0 [of "a + b"]
  unfolding r_def uint_add_cases by blast+

lemma addHiLo_eq:
  "addHiLo hi lo r0 = (hi + (if 2 ^ LENGTH('a) \<le> uint lo + uint r0 then 1 else 0), lo + r0)"
  for hi lo r0 :: "'a::len word"
  using addHiLo_carry_iff [of r0 lo]
  by (simp add: addHiLo_def Let_def add.commute [of r0 lo])

lemma hilo_value_unsigned: "hilo_value Unsigned (hi, lo) = uint hi * 2 ^ LENGTH('a) + uint lo"
  for hi lo :: "'a::len word"
  by (simp add: hilo_value_def cvalue_def)

lemma addHiLo_value_mod:
  fixes hi lo r0 :: "'a::len word"
  shows "hilo_value Unsigned (addHiLo hi lo r0) = (hilo_value Unsigned (hi, lo) + uint r0) mod 2 ^ (2 * LENGTH('a))"
proof -
  let ?N = "(2::int) ^ LENGTH('a)"
  define c :: int where "c = (if ?N \<le> uint lo + uint r0 then 1 else 0)"
  define r where "r = uint lo + uint r0 - c * ?N"
  have N2: "(2::int) ^ (2 * LENGTH('a)) = ?N * ?N"
    by (simp add: mult_2 power_add)
  have lo': "uint (lo + r0) = r"
    unfolding r_def c_def by (rule uint_add_cases)
  have hi': "uint (hi + (if ?N \<le> uint lo + uint r0 then 1 else 0)) = (uint hi + c) mod ?N"
    unfolding c_def by (simp add: uint_word_ariths)
  have r: "0 \<le> r" "r < ?N"
    unfolding r_def c_def by (rule uint_add_carry_range)+
  have "hilo_value Unsigned (addHiLo hi lo r0) = ((uint hi + c) mod ?N) * ?N + r"
    by (simp only: addHiLo_eq hilo_value_unsigned hi' lo')
  also have "\<dots> = ((uint hi + c) * ?N + r) mod (?N * ?N)"
    by (rule hilo_mod [OF r, symmetric])
  also have "(uint hi + c) * ?N + r = uint hi * ?N + uint lo + uint r0"
    unfolding r_def by (simp add: algebra_simps)
  finally show ?thesis
    by (simp only: hilo_value_unsigned N2)
qed

lemma addHiLo_value_exact:
  fixes hi lo r0 :: "'a::len word"
  assumes "hi \<noteq> - 1"
  shows "hilo_value Unsigned (addHiLo hi lo r0) = hilo_value Unsigned (hi, lo) + uint r0"
proof -
  let ?N = "(2::int) ^ LENGTH('a)"
  have N2: "(2::int) ^ (2 * LENGTH('a)) = ?N * ?N"
    by (simp add: mult_2 power_add)
  have "uint hi \<noteq> ?N - 1"
  proof
    assume "uint hi = ?N - 1"
    then have "uint hi = uint (- 1 :: 'a word)"
      by (simp add: unsigned_minus_1_eq_mask mask_eq_exp_minus_1)
    then have "hi = - 1"
      by (simp only: word_uint_eq_iff)
    with assms show False by simp
  qed
  then have hi: "uint hi + 2 \<le> ?N"
    using uint_lt2p [of hi] by linarith
  then have "(uint hi + 2) * ?N \<le> ?N * ?N"
    by (simp add: mult_right_mono)
  moreover have "(uint hi + 2) * ?N = uint hi * ?N + 2 * ?N"
    by (simp add: algebra_simps)
  ultimately have "uint hi * ?N + uint lo + uint r0 < ?N * ?N"
    using uint_lt2p [of lo] uint_lt2p [of r0] by linarith
  moreover have "0 \<le> uint hi * ?N + uint lo + uint r0"
    by simp
  ultimately have "(uint hi * ?N + uint lo + uint r0) mod (?N * ?N) = uint hi * ?N + uint lo + uint r0"
    by (simp add: mod_pos_pos_trivial)
  then show ?thesis
    by (simp only: addHiLo_value_mod N2 hilo_value_unsigned)
qed

text \<open>
  Claim C5 as stated fails in both readings of the pair. Signed: adding \<open>r0 = -1\<close> to the
  pair \<open>(0, 5)\<close> gives \<open>(1, 4)\<close>, that is \<open>2^32 + 4\<close> and not \<open>4\<close>, because \<open>r0\<close> is
  converted to the unsigned type before it is added. Unsigned: adding 1 to the pair of two
  all-ones words gives \<open>(0, 0)\<close>, the carry out of \<open>hi\<close> being dropped.
\<close>

theorem addHiLo_exact_counterexample:
  "addHiLo 0 (5 :: 32 word) (- 1) = (1, 4) \<and>
   hilo_value Signed (addHiLo 0 (5 :: 32 word) (- 1))
     \<noteq> hilo_value Signed (0, 5 :: 32 word) + cvalue Signed (- 1 :: 32 word) \<and>
   addHiLo 0xFFFFFFFF 0xFFFFFFFF (1 :: 32 word) = (0, 0) \<and>
   hilo_value Unsigned (addHiLo 0xFFFFFFFF 0xFFFFFFFF (1 :: 32 word))
     \<noteq> hilo_value Unsigned (0xFFFFFFFF, 0xFFFFFFFF :: 32 word) + cvalue Unsigned (1 :: 32 word)"
  by (simp add: hilo_value_def addHiLo_def cvalue_def)

text \<open>
  Claim C5, amended. Whatever the instantiated type, \<^verbatim>\<open>addHiLo\<close> adds the three operands
  as unsigned words: the new \<open>lo\<close> is \<open>lo + r0\<close> wrapped, the new \<open>hi\<close> is \<open>hi\<close> or
  \<open>hi + 1\<close>, the latter exactly when \<open>lo + r0\<close> does not fit the width. The new pair, read
  as an unsigned double-width value, is the old pair plus the unsigned \<open>r0\<close> modulo
  \<open>2^(2W)\<close>, and exactly that sum unless \<open>hi\<close> is all ones. On 32-bit operands
  \<^verbatim>\<open>addHiLo(hi=0, lo=0xFFFFFFFF, r0=1)\<close> is \<open>(1, 0)\<close>.
\<close>

theorem addHiLo_unsigned_sum:
  fixes hi lo r0 :: "'a::len word"
  shows "snd (addHiLo hi lo r0) = lo + r0 \<and>
    fst (addHiLo hi lo r0) = hi + (if 2 ^ LENGTH('a) \<le> uint lo + uint r0 then 1 else 0) \<and>
    hilo_value Unsigned (addHiLo hi lo r0)
      = (hilo_value Unsigned (hi, lo) + uint r0) mod 2 ^ (2 * LENGTH('a)) \<and>
    (hi \<noteq> - 1 \<longrightarrow>
      hilo_value Unsigned (addHiLo hi lo r0) = hilo_value Unsigned (hi, lo) + uint r0) \<and>
    addHiLo 0 (0xFFFFFFFF :: 32 word) 1 = (1, 0)"
proof (intro conjI impI)
  show "snd (addHiLo hi lo r0) = lo + r0"
    by (simp only: addHiLo_eq snd_conv)
  show "fst (addHiLo hi lo r0) = hi + (if 2 ^ LENGTH('a) \<le> uint lo + uint r0 then 1 else 0)"
    by (simp only: addHiLo_eq fst_conv)
  show "hilo_value Unsigned (addHiLo hi lo r0)
      = (hilo_value Unsigned (hi, lo) + uint r0) mod 2 ^ (2 * LENGTH('a))"
    by (rule addHiLo_value_mod)
  show "hilo_value Unsigned (addHiLo hi lo r0) = hilo_value Unsigned (hi, lo) + uint r0"
    if "hi \<noteq> - 1"
    using that by (rule addHiLo_value_exact)
  show "addHiLo 0 (0xFFFFFFFF :: 32 word) 1 = (1, 0)"
    by (simp add: addHiLo_def)
qed

theorem addHiLo_unsigned_sum_witness:
  "(7 :: 32 word) \<noteq> - 1 \<and>
   addHiLo 7 (0xFFFFFFFE :: 32 word) 5 = (8, 3) \<and>
   hilo_value Unsigned (addHiLo 7 (0xFFFFFFFE :: 32 word) 5)
     = hilo_value Unsigned (7, 0xFFFFFFFE :: 32 word) + uint (5 :: 32 word)"
proof -
  have h: "(7 :: 32 word) \<noteq> - 1"
    by simp
  have e: "addHiLo 7 (0xFFFFFFFE :: 32 word) 5 = (8, 3)"
    by (simp add: addHiLo_def)
  show ?thesis
    using h e addHiLo_unsigned_sum [of 7 "0xFFFFFFFE :: 32 word" 5] by blast
qed

section \<open>brev\<close>

lemma push_bit_and_1: "0 < n \<Longrightarrow> push_bit n x AND 1 = 0" for x :: "'a::len word"
  by (rule bit_word_eqI) (auto simp: bit_simps)

lemma bitExtract_0: "bitExtract sg v 0 = v AND 1"
  by (cases sg) (simp_all add: bitExtract_def shr_def)

lemma bitExtract_and_1: "0 < n \<Longrightarrow> bitExtract sg v n AND 1 = 0"
  unfolding bitExtract_def by (rule push_bit_and_1)

lemma brev_loop_eq:
  "i \<le> msb \<Longrightarrow> brev_loop sg v msb i result = result OR push_bit msb (v AND 1)"
proof (induction sg v msb i result rule: brev_loop.induct)
  case (1 sg v msb i result)
  show ?case
  proof (cases "i = msb")
    case True
    have "brev_loop sg v msb i result
        = brev_loop sg v msb (msb + 1) (bitInsert result (bitExtract sg v 0) msb)"
      using True by (subst brev_loop.simps) simp
    also have "\<dots> = bitInsert result (bitExtract sg v 0) msb"
      by (subst brev_loop.simps) simp
    also have "\<dots> = result OR push_bit msb (v AND 1)"
      by (simp only: bitExtract_0 bitInsert_eq_or and.assoc and.idem)
    finally show ?thesis .
  next
    case False
    with "1.prems" have lt: "i < msb" by simp
    then have "bitInsert result (bitExtract sg v (msb - i)) i = result"
      by (simp add: bitInsert_eq_or bitExtract_and_1)
    with lt "1.IH" show ?thesis
      by (subst brev_loop.simps) simp
  qed
qed

lemma brev_eq: "brev sg v = push_bit (LENGTH('a) - 1) (v AND 1)" for v :: "'a::len word"
  unfolding brev_def by (subst brev_loop_eq) simp_all

lemma brev_brev: "2 \<le> LENGTH('a) \<Longrightarrow> brev sg (brev sg v) = 0" for v :: "'a::len word"
proof -
  assume "2 \<le> LENGTH('a)"
  then have "brev sg v AND 1 = 0"
    unfolding brev_eq by (intro push_bit_and_1) simp
  then show ?thesis
    unfolding brev_eq [of sg "brev sg v"] by simp
qed

text \<open>
  Claim C3, at inputs where the code departs from it. \<^verbatim>\<open>bitExtract\<close> returns the bit
  in place, \<^verbatim>\<open>bitInsert\<close> keeps only the lowest bit of its argument, so every iteration
  of \<^verbatim>\<open>brev\<close> but the last inserts 0: the result is the lowest bit of the operand moved
  to the top (\<open>brev_eq\<close>), and reversing twice gives 0. For the 8-bit value 1 the first
  reversal is \<open>0x80\<close> and the second is 0, not 1; the reversal of 6 is 0, not \<open>0x60\<close>.
\<close>

theorem brev_twice_is_zero:
  "brev Unsigned (1 :: 8 word) = 128 \<and>
   brev Unsigned (brev Unsigned (1 :: 8 word)) = 0 \<and>
   brev Unsigned (6 :: 8 word) = 0 \<and>
   brev sg (brev sg (v :: 32 word)) = 0"
  by (simp add: brev_eq [where 'a = 8] brev_brev)

section \<open>bfind and countLeadingZeros\<close>

lemma and_ne_0_iff: "x AND y \<noteq> 0 \<longleftrightarrow> (\<exists>n. bit x n \<and> bit y n)" for x y :: int
  by (auto simp: bit_eq_iff bit_and_iff)

lemma bit_sint_one_shl:
  "i < 32 \<Longrightarrow> bit (sint (push_bit i (1 :: 32 word))) n \<longleftrightarrow> n = i \<or> (i = 31 \<and> 31 \<le> n)"
  by (auto simp: bit_sint_iff bit_simps)

lemma bit_cvalue_iff:
  "bit (cvalue sg v) n \<longleftrightarrow> (if n < LENGTH('a) then bit v n else sg = Signed \<and> bit v (LENGTH('a) - 1))"
  for v :: "'a::len word"
  by (cases sg) (auto simp: cvalue_def bit_sint_iff bit_uint_iff dest: bit_imp_le_length)

lemma bfind_test:
  fixes v :: "'a::len word"
  assumes "i < LENGTH('a)" "LENGTH('a) \<le> 32"
  shows "cvalue sg v AND sint (push_bit i (1 :: 32 word)) \<noteq> 0 \<longleftrightarrow> bit v i"
proof -
  have i: "i < 32" using assms by simp
  have c: "bit (cvalue sg v) i \<longleftrightarrow> bit v i"
    using assms by (simp add: bit_cvalue_iff)
  show ?thesis
  proof (cases "i = 31")
    case True
    with assms have L: "LENGTH('a) = 32" by simp
    have "bit v 31" if "bit (cvalue sg v) n" "31 \<le> n" for n
    proof (cases "n = 31")
      case True
      with that c \<open>i = 31\<close> show ?thesis by simp
    next
      case False
      with that have "\<not> n < LENGTH('a)" using L by simp
      with that(1) show ?thesis
        by (simp add: bit_cvalue_iff L)
    qed
    moreover have "\<exists>n. bit (cvalue sg v) n \<and> 31 \<le> n" if "bit v 31"
      using that c True by (intro exI [of _ 31]) simp
    ultimately show ?thesis
      unfolding and_ne_0_iff bit_sint_one_shl [OF i] using True by blast
  next
    case False
    then show ?thesis
      unfolding and_ne_0_iff bit_sint_one_shl [OF i] using c by simp
  qed
qed

lemma bfind_loop_step:
  fixes v :: "'a::len word"
  assumes "i < LENGTH('a)" "LENGTH('a) \<le> 32"
  shows "bfind_loop sg v (Suc i) = (if bit v i then Inr (of_nat i) else bfind_loop sg v i)"
proof -
  have "int_one_shl i = Inr (sint (push_bit i (1 :: 32 word)))"
    using assms by (simp add: int_one_shl_def)
  then show ?thesis
    using bfind_test [OF assms, of sg v] by simp
qed

lemma bfind_loop_none:
  fixes v :: "'a::len word"
  assumes "LENGTH('a) \<le> 32"
  shows "n \<le> LENGTH('a) \<Longrightarrow> \<forall>j<n. \<not> bit v j \<Longrightarrow> bfind_loop sg v n = Inr (- 1)"
proof (induction n)
  case 0
  show ?case by simp
next
  case (Suc n)
  then show ?case
    using assms by (simp add: bfind_loop_step del: bfind_loop.simps)
qed

lemma bfind_loop_found:
  fixes v :: "'a::len word"
  assumes "LENGTH('a) \<le> 32"
  shows "n \<le> LENGTH('a) \<Longrightarrow> i < n \<Longrightarrow> bit v i \<Longrightarrow> \<forall>j. i < j \<and> j < n \<longrightarrow> \<not> bit v j
    \<Longrightarrow> bfind_loop sg v n = Inr (of_nat i)"
proof (induction n)
  case 0
  then show ?case by simp
next
  case (Suc n)
  show ?case
  proof (cases "i = n")
    case True
    with Suc.prems assms show ?thesis
      by (simp add: bfind_loop_step del: bfind_loop.simps)
  next
    case False
    with Suc.prems have "i < n" "\<not> bit v n" by auto
    with Suc assms show ?thesis
      by (simp add: bfind_loop_step del: bfind_loop.simps)
  qed
qed

lemma bit_push_bit_1_Suc:
  "bit (push_bit 1 v) (Suc n) \<longleftrightarrow> Suc n < LENGTH('a) \<and> bit v n" for v :: "'a::len word"
  by (simp only: bit_push_bit_iff) auto

lemma clz_loop_spec:
  fixes v :: "'a::len word"
  assumes "c \<le> LENGTH('a)"
  shows "clz_post v c (countLeadingZeros_loop LENGTH('a) (push_bit (LENGTH('a) - 1) 1) v c)"
  using assms
proof (induction "LENGTH('a) - c" arbitrary: c v)
  case 0
  then have "c = LENGTH('a)" by simp
  then show ?case
    by (subst countLeadingZeros_loop.simps) (auto simp: clz_post_def)
next
  case (Suc k)
  let ?W = "LENGTH('a)"
  from Suc.hyps(2) have c: "c < ?W" by simp
  show ?case
  proof (cases "bit v (?W - 1)")
    case True
    then have "countLeadingZeros_loop ?W (push_bit (?W - 1) 1) v c = c"
      by (subst countLeadingZeros_loop.simps) (simp add: and_exp_eq_0_iff_not_bit)
    with True c show ?thesis
      by (auto simp: clz_post_def)
  next
    case False
    let ?r = "countLeadingZeros_loop ?W (push_bit (?W - 1) 1) (push_bit 1 v) (c + 1)"
    have eq: "countLeadingZeros_loop ?W (push_bit (?W - 1) 1) v c = ?r"
      using False c
      by (subst countLeadingZeros_loop.simps) (simp add: and_exp_eq_0_iff_not_bit)
    have "k = ?W - (c + 1)" "c + 1 \<le> ?W"
      using Suc.hyps(2) by simp_all
    then have IH: "clz_post (push_bit 1 v) (c + 1) ?r"
      by (rule Suc.hyps(1))
    have "clz_post v c ?r"
      unfolding clz_post_def
    proof (intro conjI allI impI)
      show "c \<le> ?r" "?r \<le> ?W"
        using IH by (simp_all add: clz_post_def)
      show "\<not> bit v (?W - 1 - (j - c))" if "c \<le> j \<and> j < ?r" for j
      proof (cases "j = c")
        case True
        with False show ?thesis by simp
      next
        case F: False
        with that have j: "c + 1 \<le> j" "j < ?r" by simp_all
        from IH have "?r \<le> ?W" by (simp add: clz_post_def)
        with j have m: "?W - 1 - (j - (c + 1)) = Suc (?W - 1 - (j - c))" "Suc (?W - 1 - (j - c)) < ?W"
          by linarith+
        from IH j have "\<not> bit (push_bit 1 v) (?W - 1 - (j - (c + 1)))"
          unfolding clz_post_def by blast
        then show ?thesis
          unfolding m(1) bit_push_bit_1_Suc using m(2) by blast
      qed
      show "bit v (?W - 1 - (?r - c))" if "?r < ?W"
      proof -
        from IH that have b: "bit (push_bit 1 v) (?W - 1 - (?r - (c + 1)))" and "c + 1 \<le> ?r"
          unfolding clz_post_def by blast+
        with that have m: "?W - 1 - (?r - (c + 1)) = Suc (?W - 1 - (?r - c))"
          by linarith
        from b show ?thesis
          unfolding m bit_push_bit_1_Suc by blast
      qed
    qed
    then show ?thesis
      by (simp only: eq)
  qed
qed

lemma countLeadingZeros_spec:
  fixes v :: "'a::len word"
  shows "countLeadingZeros v \<le> LENGTH('a)"
    and "j < countLeadingZeros v \<Longrightarrow> \<not> bit v (LENGTH('a) - 1 - j)"
    and "countLeadingZeros v < LENGTH('a) \<Longrightarrow> bit v (LENGTH('a) - 1 - countLeadingZeros v)"
  using clz_loop_spec [of 0 v]
  by (simp_all add: countLeadingZeros_def Let_def clz_post_def del: push_bit_of_1)

lemma countLeadingZeros_less:
  fixes v :: "'a::len word"
  assumes "v \<noteq> 0"
  shows "countLeadingZeros v < LENGTH('a)"
proof (rule ccontr)
  assume "\<not> countLeadingZeros v < LENGTH('a)"
  with countLeadingZeros_spec(1) [of v] have r: "countLeadingZeros v = LENGTH('a)"
    by simp
  have "v = 0"
  proof (rule bit_word_eqI)
    fix n assume n: "n < LENGTH('a)"
    then have "LENGTH('a) - 1 - n < countLeadingZeros v"
      by (simp add: r)
    then have "\<not> bit v (LENGTH('a) - 1 - (LENGTH('a) - 1 - n))"
      by (rule countLeadingZeros_spec(2))
    moreover have "LENGTH('a) - 1 - (LENGTH('a) - 1 - n) = n"
      using n by simp
    ultimately show "bit v n \<longleftrightarrow> bit (0 :: 'a word) n"
      by simp
  qed
  with assms show False by simp
qed

lemma bit_above_top:
  fixes v :: "'a::len word"
  assumes "LENGTH('a) - 1 - countLeadingZeros v < j" "j < LENGTH('a)"
  shows "\<not> bit v j"
proof -
  have "LENGTH('a) - 1 - j < countLeadingZeros v"
    using assms by linarith
  then have "\<not> bit v (LENGTH('a) - 1 - (LENGTH('a) - 1 - j))"
    by (rule countLeadingZeros_spec(2))
  moreover have "LENGTH('a) - 1 - (LENGTH('a) - 1 - j) = j"
    using assms by simp
  ultimately show ?thesis by simp
qed

lemma bfind_loop_top:
  fixes v :: "'a::len word"
  assumes "LENGTH('a) \<le> 32" "v \<noteq> 0"
  shows "bfind_loop sg v LENGTH('a) = Inr (of_nat (LENGTH('a) - 1 - countLeadingZeros v))"
proof (rule bfind_loop_found [OF assms(1)])
  show "LENGTH('a) \<le> LENGTH('a)" by simp
  show "LENGTH('a) - 1 - countLeadingZeros v < LENGTH('a)" by simp
  show "bit v (LENGTH('a) - 1 - countLeadingZeros v)"
    using countLeadingZeros_less [OF assms(2)] by (rule countLeadingZeros_spec(3))
  show "\<forall>j. LENGTH('a) - 1 - countLeadingZeros v < j \<and> j < LENGTH('a) \<longrightarrow> \<not> bit v j"
    using bit_above_top by blast
qed

lemma of_nat_32_neq_minus_1: "n < 32 \<Longrightarrow> (of_nat n :: 32 word) \<noteq> - 1"
proof
  assume n: "n < 32" and "(of_nat n :: 32 word) = - 1"
  then have "unat (of_nat n :: 32 word) = unat (- 1 :: 32 word)"
    by simp
  moreover have "unat (of_nat n :: 32 word) = n"
    using n by (simp add: unsigned_of_nat take_bit_nat_eq_self)
  moreover have "unat (- 1 :: 32 word) = 4294967295"
    by (simp add: unsigned_minus_1_eq_mask mask_eq_exp_minus_1)
  ultimately show False
    using n by simp
qed

lemma bfind_le32:
  fixes v :: "'a::len word"
  assumes "LENGTH('a) \<le> 32" "v \<noteq> 0"
  shows "bfind sg v False = Inr (of_nat (LENGTH('a) - 1 - countLeadingZeros v))"
    and "bfind sg v True = Inr (of_nat (countLeadingZeros v))"
proof -
  let ?W = "LENGTH('a)"
  let ?r = "countLeadingZeros v"
  have S: "Suc (?W - 1) = ?W" by simp
  have r: "?r < ?W" using assms(2) by (rule countLeadingZeros_less)
  have ne: "(of_nat (?W - 1 - ?r) :: 32 word) \<noteq> - 1"
    using assms(1) by (intro of_nat_32_neq_minus_1) simp
  have "(of_nat (?W - 1) :: 32 word) - of_nat (?W - 1 - ?r) = of_nat (?W - 1 - (?W - 1 - ?r))"
    by (rule of_nat_diff [symmetric]) simp
  also have "?W - 1 - (?W - 1 - ?r) = ?r"
    using r by simp
  finally have d: "(of_nat (?W - 1) :: 32 word) - of_nat (?W - 1 - ?r) = of_nat ?r" .
  show "bfind sg v False = Inr (of_nat (?W - 1 - ?r))"
    unfolding bfind_def Let_def S bfind_loop_top [OF assms] by simp
  show "bfind sg v True = Inr (of_nat ?r)"
    unfolding bfind_def Let_def S bfind_loop_top [OF assms] using ne d by simp
qed

lemma bfind_zero_le32:
  assumes "LENGTH('a::len) \<le> 32"
  shows "bfind sg (0 :: 'a word) s = Inr (- 1)"
proof -
  have "bfind_loop sg (0 :: 'a word) LENGTH('a) = Inr (- 1)"
    using assms by (intro bfind_loop_none) simp_all
  moreover have S: "Suc (LENGTH('a) - 1) = LENGTH('a)" by simp
  ultimately show ?thesis
    unfolding bfind_def Let_def S by simp
qed

text \<open>
  Claim C6, at the width where the code departs from it. In a 64-bit instantiation the
  loop starts at \<open>i = 63\<close> and its first test evaluates \<^verbatim>\<open>1 << 63\<close> on a 32-bit
  \<^verbatim>\<open>int\<close>, so no run of \<^verbatim>\<open>bfind\<close> on a 64-bit operand has a defined result, whatever
  the operand and the flag. (For widths up to 32 the claim holds: \<open>bfind_le32\<close>,
  \<open>bfind_zero_le32\<close>.)
\<close>

theorem bfind_64_undefined_shift:
  "bfind sg (v :: 64 word) shiftAmount = Inl UndefinedShift"
  by (simp add: bfind_def int_one_shl_def)

text \<open>
  Claim C7 as stated fails: with the flag set \<^verbatim>\<open>bfind\<close> returns the number of leading
  zeros itself, so the sum is \<open>2 * countLeadingZeros(v) + 1\<close>, an odd number. For the
  8-bit value 1 it is \<open>7 + 1 + 7 = 15\<close>, not 8.
\<close>

theorem clz_bfind_shift_counterexample:
  "countLeadingZeros (1 :: 8 word) = 7 \<and> bfind Unsigned (1 :: 8 word) True = Inr 7 \<and>
   countLeadingZeros (1 :: 8 word) + 1 + unat (7 :: 32 word) \<noteq> LENGTH(8)"
proof -
  have "countLeadingZeros (1 :: 8 word) = 7"
    by code_simp
  moreover have "bfind Unsigned (1 :: 8 word) True = Inr 7"
    by code_simp
  ultimately show ?thesis
    by simp
qed

text \<open>
  Claim C7, amended. For a nonzero value of a width up to 32 the relation holds with the
  flag clear: \<^verbatim>\<open>bfind(v, false)\<close> returns an index \<open>d\<close> with
  \<open>countLeadingZeros(v) + 1 + d = W\<close>; and \<^verbatim>\<open>bfind(v, true)\<close> is
  \<^verbatim>\<open>countLeadingZeros(v)\<close>.
\<close>

theorem clz_bfind_index_consistency:
  fixes v :: "'a::len word"
  assumes "LENGTH('a) \<le> 32" and "v \<noteq> 0"
  shows "(\<exists>d. bfind sg v False = Inr d \<and> countLeadingZeros v + 1 + unat d = LENGTH('a)) \<and>
    bfind sg v True = Inr (of_nat (countLeadingZeros v))"
proof -
  let ?W = "LENGTH('a)"
  let ?r = "countLeadingZeros v"
  have r: "?r < ?W"
    using assms(2) by (rule countLeadingZeros_less)
  have "unat (of_nat (?W - 1 - ?r) :: 32 word) = ?W - 1 - ?r"
    using assms(1) by (simp add: unsigned_of_nat take_bit_nat_eq_self)
  with r have "?r + 1 + unat (of_nat (?W - 1 - ?r) :: 32 word) = ?W"
    by simp
  with bfind_le32 [OF assms, of sg] show ?thesis
    by blast
qed

theorem clz_bfind_index_consistency_witness:
  "LENGTH(8) \<le> 32 \<and> (20 :: 8 word) \<noteq> 0 \<and>
   (\<exists>d. bfind Signed (20 :: 8 word) False = Inr d \<and>
        countLeadingZeros (20 :: 8 word) + 1 + unat d = LENGTH(8)) \<and>
   bfind Signed (20 :: 8 word) True = Inr 3"
proof -
  have l: "LENGTH(8) \<le> 32" and n: "(20 :: 8 word) \<noteq> 0"
    by simp_all
  have c: "countLeadingZeros (20 :: 8 word) = 3"
    by code_simp
  show ?thesis
    using l n clz_bfind_index_consistency [OF l n, of Signed] by (simp add: c)
qed

section \<open>popc\<close>

lemma popc_loop_signed_returns:
  fixes v :: "'a::len word"
  assumes "popc_loop sg v count = Some y"
  shows "sg = Signed \<longrightarrow> \<not> bit v (LENGTH('a) - 1)"
proof -
  have step: "sg = Signed \<longrightarrow> \<not> bit v (LENGTH('a) - 1)"
    if IH: "\<And>sg (v :: 'a word) count y. f sg v count = Some y
        \<Longrightarrow> sg = Signed \<longrightarrow> \<not> bit v (LENGTH('a) - 1)"
      and eq: "(if v \<noteq> 0 then f sg (shr sg v 1) (if v AND 1 \<noteq> 0 then count + 1 else count)
        else Some count) = Some y"
    for f sg and v :: "'a word" and count :: nat and y :: nat
  proof (cases "v = 0")
    case True
    then show ?thesis by simp
  next
    case False
    with eq have "f sg (shr sg v 1) (if v AND 1 \<noteq> 0 then count + 1 else count) = Some y"
      by simp
    then have "sg = Signed \<longrightarrow> \<not> bit (shr sg v 1) (LENGTH('a) - 1)"
      by (rule IH)
    then show ?thesis
      by (auto simp: shr_def bit_signed_drop_bit_iff)
  qed
  show ?thesis
    by (rule popc_loop.raw_induct
        [where P = "\<lambda>sg (v :: 'a word) count y. sg = Signed \<longrightarrow> \<not> bit v (LENGTH('a) - 1)",
          OF step assms])
qed

lemma popc_signed_negative: "sint v < 0 \<Longrightarrow> popc Signed v = None"
proof (rule ccontr)
  assume neg: "sint v < 0" and "popc Signed v \<noteq> None"
  then obtain y where "popc_loop Signed v 0 = Some y"
    by (auto simp: popc_def)
  then have "\<not> bit v (LENGTH('a) - 1)"
    using popc_loop_signed_returns by blast
  with neg show False
    by (simp add: bit_last_iff)
qed

lemma finite_bits: "finite {n. bit v n}" for v :: "'a::len word"
  by (rule finite_subset [of _ "{..<LENGTH('a)}"]) (auto dest: bit_imp_le_length)

lemma bits_split:
  "{n. bit v n} = (if bit v 0 then {0} else {}) \<union> Suc ` {n. bit (drop_bit 1 v) n}"
  for v :: "'a::len word"
proof (rule set_eqI)
  fix n
  show "n \<in> {n. bit v n} \<longleftrightarrow> n \<in> (if bit v 0 then {0} else {}) \<union> Suc ` {n. bit (drop_bit 1 v) n}"
    by (cases n) (auto simp: bit_drop_bit_eq image_iff)
qed

lemma hamming_weight_step:
  "hamming_weight v = (if v AND 1 \<noteq> 0 then 1 else 0) + hamming_weight (drop_bit 1 v)"
  for v :: "'a::len word"
proof -
  have b: "v AND 1 \<noteq> 0 \<longleftrightarrow> bit v 0"
    by (simp add: and_one_eq bit_0 mod_2_eq_odd)
  have "card ((if bit v 0 then {0} else {}) \<union> Suc ` {n. bit (drop_bit 1 v) n})
      = card (if bit v 0 then {0 :: nat} else {}) + card (Suc ` {n. bit (drop_bit 1 v) n})"
    by (rule card_Un_disjoint) (auto simp: finite_bits)
  also have "card (Suc ` {n. bit (drop_bit 1 v) n}) = card {n. bit (drop_bit 1 v) n}"
    by (rule card_image) simp
  finally show ?thesis
    unfolding hamming_weight_def b by (subst bits_split) simp
qed

lemma hamming_weight_0: "hamming_weight (0 :: 'a::len word) = 0"
  by (simp add: hamming_weight_def)

lemma popc_loop_unsigned:
  "popc_loop Unsigned v count = Some (count + hamming_weight v)" for v :: "'a::len word"
proof (induction "unat v" arbitrary: v count rule: less_induct)
  case less
  show ?case
  proof (cases "v = 0")
    case True
    then show ?thesis
      by (subst popc_loop.simps) (simp add: hamming_weight_0)
  next
    case False
    have "unat (drop_bit 1 v) = unat v div 2"
      unfolding unat_drop_bit_eq by (simp add: drop_bit_eq_div)
    moreover have "0 < unat v"
      using False by (simp add: unat_gt_0)
    ultimately have "unat (drop_bit 1 v) < unat v"
      by simp
    then have "popc_loop Unsigned (drop_bit 1 v) (if v AND 1 \<noteq> 0 then count + 1 else count)
        = Some ((if v AND 1 \<noteq> 0 then count + 1 else count) + hamming_weight (drop_bit 1 v))"
      by (rule less)
    with False show ?thesis
      by (subst popc_loop.simps, subst hamming_weight_step) (simp add: shr_def)
  qed
qed

lemma popc_unsigned: "popc Unsigned v = Some (hamming_weight v)"
  by (simp add: popc_def popc_loop_unsigned)

lemma hamming_weight_le: "hamming_weight v \<le> LENGTH('a)" for v :: "'a::len word"
proof -
  have "card {n. bit v n} \<le> card {..<LENGTH('a)}"
    by (rule card_mono) (auto dest: bit_imp_le_length)
  then show ?thesis by (simp add: hamming_weight_def)
qed

lemma hamming_weight_not:
  "hamming_weight v + hamming_weight (NOT v) = LENGTH('a)" for v :: "'a::len word"
proof -
  have "{n. bit (NOT v) n} = {..<LENGTH('a)} - {n. bit v n}"
    by (auto simp: bit_not_iff)
  moreover have "{n. bit v n} \<subseteq> {..<LENGTH('a)}"
    by (auto dest: bit_imp_le_length)
  ultimately show ?thesis
    using finite_bits [of v] hamming_weight_le [of v]
    by (simp add: hamming_weight_def card_Diff_subset)
qed

lemma shr_signed_nonneg:
  fixes v :: "'a::len word"
  assumes "\<not> bit v (LENGTH('a) - 1)"
  shows "shr Signed v 1 = drop_bit 1 v"
  unfolding shr_def signedness.case
proof (rule bit_word_eqI)
  fix n assume "n < LENGTH('a)"
  show "bit (signed_drop_bit 1 v) n \<longleftrightarrow> bit (drop_bit 1 v) n"
  proof (cases "n = LENGTH('a) - 1")
    case True
    then have "\<not> bit v (1 + n)"
      by (auto dest: bit_imp_le_length)
    with True assms show ?thesis
      by (simp add: bit_signed_drop_bit_iff bit_drop_bit_eq)
  next
    case False
    with \<open>n < LENGTH('a)\<close> show ?thesis
      by (auto simp: bit_signed_drop_bit_iff bit_drop_bit_eq)
  qed
qed

lemma popc_loop_eq_unsigned:
  fixes v :: "'a::len word"
  shows "\<not> bit v (LENGTH('a) - 1) \<Longrightarrow> popc_loop Signed v count = popc_loop Unsigned v count"
proof (induction "unat v" arbitrary: v count rule: less_induct)
  case less
  show ?case
  proof (cases "v = 0")
    case True
    then show ?thesis
      by (subst popc_loop.simps, subst (2) popc_loop.simps) simp
  next
    case False
    have "unat (drop_bit 1 v) = unat v div 2"
      unfolding unat_drop_bit_eq by (simp add: drop_bit_eq_div)
    moreover have "0 < unat v"
      using False by (simp add: unat_gt_0)
    ultimately have d: "unat (drop_bit 1 v) < unat v"
      by simp
    have "\<not> bit (drop_bit 1 v) (LENGTH('a) - 1)"
      by (auto simp: bit_drop_bit_eq dest: bit_imp_le_length)
    with d have "popc_loop Signed (drop_bit 1 v) (if v AND 1 \<noteq> 0 then count + 1 else count)
        = popc_loop Unsigned (drop_bit 1 v) (if v AND 1 \<noteq> 0 then count + 1 else count)"
      by (rule less.hyps)
    moreover have "shr Unsigned v 1 = drop_bit 1 v"
      by (simp add: shr_def)
    ultimately show ?thesis
      using False shr_signed_nonneg [OF less.prems]
      by (subst popc_loop.simps, subst (2) popc_loop.simps) (simp only: if_True simp_thms)
  qed
qed

lemma popc_cases:
  "popc sg v = (if isNegative sg v then None else Some (hamming_weight v))"
proof (cases sg)
  case Unsigned
  then show ?thesis
    by (simp add: isNegative_def popc_unsigned)
next
  case Signed
  show ?thesis
  proof (cases "sint v < 0")
    case True
    with Signed show ?thesis
      by (simp add: isNegative_def popc_signed_negative)
  next
    case False
    then have "\<not> bit v (LENGTH('a) - 1)"
      by (simp add: bit_last_iff)
    then have "popc Signed v = popc Unsigned v"
      unfolding popc_def by (rule popc_loop_eq_unsigned)
    with Signed False show ?thesis
      by (simp add: isNegative_def popc_unsigned)
  qed
qed

text \<open>
  Claim C4, at inputs where the code departs from it. On a signed type \<^verbatim>\<open>value >>= 1\<close>
  copies the sign bit in, so a negative operand never becomes 0 and the loop does not
  return: \<^verbatim>\<open>popc\<close> of the 32-bit \<open>-1\<close> and of the 8-bit \<open>-128\<close> has no result. (On every
  other operand the claim holds: \<open>popc_cases\<close>, \<open>hamming_weight_le\<close>,
  \<open>hamming_weight_not\<close>.)
\<close>

theorem popc_negative_never_returns:
  "popc Signed (- 1 :: 32 word) = None \<and> popc Signed (128 :: 8 word) = None"
  by (simp add: popc_signed_negative)

section \<open>powerOfTwo\<close>

lemma fill_step:
  fixes x m :: "'a::len word"
  assumes "\<forall>n. bit x n \<longleftrightarrow> (\<exists>d. d < s \<and> bit m (n + d))" and "t = 2 * s"
  shows "\<forall>n. bit (x OR drop_bit s x) n \<longleftrightarrow> (\<exists>d. d < t \<and> bit m (n + d))"
proof
  fix n
  have "bit (x OR drop_bit s x) n \<longleftrightarrow> bit x n \<or> bit x (s + n)"
    by (simp add: bit_or_iff bit_drop_bit_eq)
  also have "\<dots> \<longleftrightarrow> (\<exists>d. d < s \<and> bit m (n + d)) \<or> (\<exists>d. d < s \<and> bit m (s + n + d))"
    using assms(1) by simp
  also have "\<dots> \<longleftrightarrow> (\<exists>d. d < t \<and> bit m (n + d))"
  proof (intro iffI)
    assume "(\<exists>d. d < s \<and> bit m (n + d)) \<or> (\<exists>d. d < s \<and> bit m (s + n + d))"
    then show "\<exists>d. d < t \<and> bit m (n + d)"
    proof
      assume "\<exists>d. d < s \<and> bit m (n + d)"
      then obtain d where "d < s" "bit m (n + d)" by blast
      then show ?thesis
        using assms(2) by (intro exI [of _ d]) simp
    next
      assume "\<exists>d. d < s \<and> bit m (s + n + d)"
      then obtain d where "d < s" "bit m (s + n + d)" by blast
      then show ?thesis
        using assms(2) by (intro exI [of _ "s + d"]) (simp add: ac_simps)
    qed
  next
    assume "\<exists>d. d < t \<and> bit m (n + d)"
    then obtain d where d: "d < t" "bit m (n + d)" by blast
    show "(\<exists>d. d < s \<and> bit m (n + d)) \<or> (\<exists>d. d < s \<and> bit m (s + n + d))"
    proof (cases "d < s")
      case True
      with d show ?thesis by blast
    next
      case False
      then have "d - s < s" "s + n + (d - s) = n + d"
        using d(1) assms(2) by simp_all
      with d(2) show ?thesis by metis
    qed
  qed
  finally show "bit (x OR drop_bit s x) n \<longleftrightarrow> (\<exists>d. d < t \<and> bit m (n + d))" .
qed

lemma powerOfTwo_fill: "powerOfTwo v = fill (v - 1) + 1"
  by (simp add: powerOfTwo_def fill_def Let_def)

lemma bit_fill_iff: "bit (fill m) n \<longleftrightarrow> (\<exists>j\<ge>n. bit m j)"
proof -
  have 1: "\<forall>n. bit m n \<longleftrightarrow> (\<exists>d. d < 1 \<and> bit m (n + d))"
    by simp
  note 2 = fill_step [OF 1, of 2]
  note 4 = fill_step [OF 2, of 4]
  note 8 = fill_step [OF 4, of 8]
  note 16 = fill_step [OF 8, of 16]
  note 32 = fill_step [OF 16, of 32]
  have "bit (fill m) n \<longleftrightarrow> (\<exists>d. d < 32 \<and> bit m (n + d))"
    unfolding fill_def Let_def using 32 by simp
  also have "\<dots> \<longleftrightarrow> (\<exists>j\<ge>n. bit m j)"
  proof
    assume "\<exists>d. d < 32 \<and> bit m (n + d)"
    then show "\<exists>j\<ge>n. bit m j"
      by (metis le_add1)
  next
    assume "\<exists>j\<ge>n. bit m j"
    then obtain j where j: "n \<le> j" "bit m j" by blast
    then have "j < 32"
      by (auto dest: bit_imp_le_length)
    with j have "j - n < 32" "n + (j - n) = j" by simp_all
    with j(2) show "\<exists>d. d < 32 \<and> bit m (n + d)" by metis
  qed
  finally show ?thesis .
qed

lemma bit_nat_imp_le: "bit a n \<Longrightarrow> 2 ^ n \<le> a" for a :: nat
proof (rule ccontr)
  assume b: "bit a n" and "\<not> 2 ^ n \<le> a"
  then have "take_bit n a = a"
    by (simp add: take_bit_nat_eq_self)
  moreover have "\<not> bit (take_bit n a) n"
    by (simp add: bit_take_bit_iff)
  ultimately show False
    using b by simp
qed

lemma bit_word_imp_le: "bit w n \<Longrightarrow> 2 ^ n \<le> unat w" for w :: "'a::len word"
  by (rule bit_nat_imp_le) (simp add: bit_unsigned_iff)

lemma bits_below_imp_less:
  fixes w :: "'a::len word"
  assumes "\<forall>j. bit w j \<longrightarrow> j < k"
  shows "unat w < 2 ^ k"
proof -
  have "take_bit k w = w"
    by (rule bit_word_eqI) (use assms in \<open>auto simp: bit_take_bit_iff\<close>)
  then have "unat w = take_bit k (unat w)"
    by (metis unsigned_take_bit_eq)
  then show ?thesis
    by (metis take_bit_nat_less_exp)
qed

lemma bit_length_props:
  shows bit_length_le: "bit_length m \<le> 32"
    and bit_length_upper: "bit m j \<Longrightarrow> j < bit_length m"
    and bit_length_lower: "m \<noteq> 0 \<Longrightarrow> bit m (bit_length m - 1)"
proof -
  have fin: "finite {j. bit m j}"
    by (rule finite_subset [of _ "{..<32}"]) (auto dest: bit_imp_le_length)
  have ne: "{j. bit m j} \<noteq> {}" if "m \<noteq> 0"
    using that by (auto simp: bit_eq_iff [of m 0] )
  have mx: "Max {j. bit m j} \<in> {j. bit m j}" if "m \<noteq> 0"
    using fin ne [OF that] by (rule Max_in)
  show "bit_length m \<le> 32"
  proof (cases "m = 0")
    case False
    from mx [OF False] have "Max {j. bit m j} < 32"
      by (auto dest: bit_imp_le_length)
    with False show ?thesis by (simp add: bit_length_def)
  qed (simp add: bit_length_def)
  show "j < bit_length m" if "bit m j"
  proof -
    from that have "m \<noteq> 0" by auto
    moreover have "j \<le> Max {j. bit m j}"
      using fin that by (intro Max_ge) simp_all
    ultimately show ?thesis by (simp add: bit_length_def)
  qed
  show "bit m (bit_length m - 1)" if "m \<noteq> 0"
    using mx [OF that] that by (simp add: bit_length_def)
qed

lemma fill_eq_mask: "fill m = mask (bit_length m)"
proof (rule bit_word_eqI)
  fix n assume n: "n < LENGTH(32)"
  have "(\<exists>j\<ge>n. bit m j) \<longleftrightarrow> n < bit_length m"
  proof
    assume "\<exists>j\<ge>n. bit m j"
    then obtain j where "n \<le> j" "bit m j" by blast
    then show "n < bit_length m"
      using bit_length_upper [of m j] by simp
  next
    assume l: "n < bit_length m"
    then have "m \<noteq> 0" by (auto simp: bit_length_def)
    then have "bit m (bit_length m - 1)" by (rule bit_length_lower)
    moreover have "n \<le> bit_length m - 1" using l by simp
    ultimately show "\<exists>j\<ge>n. bit m j" by blast
  qed
  with n show "bit (fill m) n \<longleftrightarrow> bit (mask (bit_length m) :: 32 word) n"
    by (simp add: bit_fill_iff bit_mask_iff)
qed

lemma powerOfTwo_eq_exp: "powerOfTwo v = 2 ^ bit_length (v - 1)"
  by (simp only: powerOfTwo_fill fill_eq_mask inc_mask_eq_exp)

lemma isPowerOfTwo_exp: "isPowerOfTwo (2 ^ k)"
  unfolding isPowerOfTwo_def
  by (rule bit_word_eqI) (auto simp: bit_and_iff bit_exp_iff bit_minus_exp_iff simp flip: minus_eq_not_plus_1)

lemma unat_exp_32: "k < 32 \<Longrightarrow> unat (2 ^ k :: 32 word) = 2 ^ k"
proof -
  assume "k < 32"
  then have "uint (2 ^ k :: 32 word) = 2 ^ k"
    by (rule uint_pow2)
  then have "int (unat (2 ^ k :: 32 word)) = int (2 ^ k)"
    by simp
  then show ?thesis
    by (simp only: of_nat_eq_iff)
qed

text \<open>
  Claim C9. For every 32-bit \<open>v\<close> with \<open>1 \<le> v \<le> 2^31\<close>, \<^verbatim>\<open>powerOfTwo(v)\<close> is the smallest
  power of two that is at least \<open>v\<close>: it passes \<^verbatim>\<open>isPowerOfTwo\<close> and is a power of two
  indeed, it is at least \<open>v\<close> and at most every power of two that is at least \<open>v\<close>, it
  is below \<open>2 * v\<close>, and it is \<open>v\<close> when \<open>v\<close> is a power of two.
\<close>

theorem powerOfTwo_smallest_power:
  assumes "1 \<le> unat v" and "unat v \<le> 2 ^ 31"
  shows "isPowerOfTwo (powerOfTwo v) \<and> power_of_two (powerOfTwo v) \<and>
    unat v \<le> unat (powerOfTwo v) \<and>
    (\<forall>j. unat v \<le> 2 ^ j \<longrightarrow> unat (powerOfTwo v) \<le> 2 ^ j) \<and>
    unat (powerOfTwo v) < 2 * unat v \<and>
    (power_of_two v \<longrightarrow> powerOfTwo v = v)"
proof -
  define m where "m = v - 1"
  define k where "k = bit_length m"
  have "v \<noteq> 0"
    using assms(1) by auto
  then have um: "unat m = unat v - 1"
    unfolding m_def by (rule unat_minus_one)
  have p: "powerOfTwo v = 2 ^ k"
    unfolding k_def m_def by (rule powerOfTwo_eq_exp)
  have "unat m < 2 ^ k"
    unfolding k_def by (rule bits_below_imp_less) (simp add: bit_length_upper)
  with um assms(1) have ge: "unat v \<le> 2 ^ k"
    by simp
  have low: "2 ^ (k - 1) \<le> unat m" if "m \<noteq> 0"
    using bit_length_lower [OF that] unfolding k_def by (rule bit_word_imp_le)
  have k31: "k \<le> 31"
  proof (cases "m = 0")
    case True
    then show ?thesis by (simp add: k_def bit_length_def)
  next
    case False
    from low [OF False] um assms have "(2::nat) ^ (k - 1) < 2 ^ 31"
      by simp
    then have "k - 1 < 31"
      by (rule power_less_imp_less_exp [rotated]) simp
    then show ?thesis by simp
  qed
  then have u: "unat (2 ^ k :: 32 word) = 2 ^ k"
    by (intro unat_exp_32) simp
  have lt: "(2::nat) ^ k < 2 * unat v"
  proof (cases "m = 0")
    case True
    with assms(1) show ?thesis by (simp add: k_def bit_length_def)
  next
    case False
    then have "0 < k" by (simp add: k_def bit_length_def)
    then have "(2::nat) ^ k = 2 * 2 ^ (k - 1)"
      by (cases k) simp_all
    with low [OF False] um assms(1) show ?thesis
      by simp
  qed
  have least: "(2::nat) ^ k \<le> 2 ^ j" if "unat v \<le> 2 ^ j" for j
  proof -
    from lt that have "(2::nat) ^ k < 2 ^ Suc j"
      by simp
    then have "k < Suc j"
      by (rule power_less_imp_less_exp [rotated]) simp
    then show ?thesis
      by (intro power_increasing) simp_all
  qed
  have same: "powerOfTwo v = v" if "power_of_two v"
  proof -
    from that obtain j where j: "j < 32" "v = 2 ^ j"
      by (auto simp: power_of_two_iff)
    then have "unat v = 2 ^ j"
      by (simp only: unat_exp_32)
    with least [of j] ge have "unat (2 ^ k :: 32 word) = unat v"
      by (simp add: u)
    then show ?thesis
      by (simp only: p word_unat_eq_iff)
  qed
  have "power_of_two (2 ^ k)"
    unfolding power_of_two_iff using k31 by (intro exI [of _ k]) simp
  with ge lt least same show ?thesis
    by (simp add: p u isPowerOfTwo_exp)
qed

theorem powerOfTwo_smallest_power_witness:
  "1 \<le> unat (5 :: 32 word) \<and> unat (5 :: 32 word) \<le> 2 ^ 31 \<and> powerOfTwo 5 = 8 \<and>
   isPowerOfTwo (powerOfTwo 5) \<and> power_of_two (powerOfTwo 5) \<and>
   unat (5 :: 32 word) \<le> 2 ^ 3 \<and> unat (powerOfTwo 5) \<le> 2 ^ 3 \<and>
   unat (powerOfTwo 5) < 2 * unat (5 :: 32 word) \<and>
   power_of_two 8 \<and> powerOfTwo 8 = 8"
proof -
  have a: "1 \<le> unat (5 :: 32 word)" "unat (5 :: 32 word) \<le> 2 ^ 31"
    and b: "1 \<le> unat (8 :: 32 word)" "unat (8 :: 32 word) \<le> 2 ^ 31"
    by simp_all
  have c: "power_of_two 8"
    by (simp add: power_of_two_def upt_rec)
  have d: "powerOfTwo 5 = 8"
    by (simp add: powerOfTwo_def)
  have e: "unat (5 :: 32 word) \<le> 2 ^ 3"
    by simp
  show ?thesis
    using a c d e powerOfTwo_smallest_power [OF a] powerOfTwo_smallest_power [OF b]
    by blast
qed

section \<open>multiplyHiLo\<close>

lemma multiplyHiLo_decomp:
  "multiplyHiLo sg r0 r1 =
    (let p = mul_unsigned (if isNegative sg r0 then - r0 else r0) (if isNegative sg r1 then - r1 else r1)
     in if isNegative sg r0 \<noteq> isNegative sg r1 then negate_hilo p else p)"
  unfolding multiplyHiLo_def mul_unsigned_def negate_hilo_def Let_def
  by (simp only: fst_conv snd_conv split: if_split) blast

lemma uint_drop_bit: "uint (drop_bit n w) = uint w div 2 ^ n" for w :: "'a::len word"
proof -
  have "uint (drop_bit n w) = drop_bit n (uint w)"
    by (simp add: unsigned_drop_bit_eq take_bit_int_eq_self uint_lt2p del: drop_bit_eq_div)
  then show ?thesis
    by (simp only: drop_bit_eq_div)
qed

lemma uint_and_low: "uint (w AND (push_bit n 1 - 1)) = uint w mod 2 ^ n" for w :: "'a::len word"
proof -
  have "w AND (push_bit n 1 - 1) = take_bit n w"
    by (simp add: and_pow2_minus_1)
  then have "uint (w AND (push_bit n 1 - 1)) = take_bit n (uint w)"
    by (simp only: unsigned_take_bit_eq)
  then show ?thesis
    by (simp only: take_bit_eq_mod)
qed

lemma uint_push_bit: "uint (push_bit n w) = (uint w * 2 ^ n) mod 2 ^ LENGTH('a)" for w :: "'a::len word"
proof -
  have "uint (push_bit n w) = take_bit LENGTH('a) (push_bit n (uint w))"
    by (rule unsigned_push_bit_eq)
  also have "\<dots> = (push_bit n (uint w)) mod 2 ^ LENGTH('a)"
    by (rule take_bit_eq_mod)
  also have "push_bit n (uint w) = uint w * 2 ^ n"
    by (rule push_bit_eq_mult)
  finally show ?thesis .
qed

lemma carry_int:
  fixes p q T :: int
  assumes "0 < T" 
  shows "(p div T + q div T + (p mod T + q mod T) div T) div 2 = (p + q) div (2 * T)"
proof -
  have "(p + q) div T = p div T + q div T + (p mod T + q mod T) div T"
    by (rule div_add1_eq)
  moreover have "(p + q) div (T * 2) = (p + q) div T div 2"
    by (rule zdiv_zmult2_eq) simp
  ultimately show ?thesis
    by (simp add: mult.commute)
qed

lemma uint_add_small:
  fixes a b :: "'a::len word"
  assumes "uint a + uint b < 2 ^ LENGTH('a)"
  shows "uint (a + b) = uint a + uint b"
proof -
  have "0 \<le> uint a + uint b" by simp
  then have "(uint a + uint b) mod 2 ^ LENGTH('a) = uint a + uint b"
    using assms by (rule mod_pos_pos_trivial)
  then show ?thesis
    by (simp only: uint_word_ariths)
qed

lemma int_div_less:
  fixes x T k :: int
  assumes "0 < T" and "x < k * T"
  shows "x div T < k"
proof (rule ccontr)
  assume "\<not> x div T < k"
  then have "k * T \<le> (x div T) * T"
    using assms(1) by (simp add: mult_right_mono)
  moreover have "(x div T) * T + x mod T = x"
    by (rule div_mult_mod_eq)
  moreover have "0 \<le> x mod T"
    using assms(1) by simp
  ultimately show False
    using assms(2) by linarith
qed

lemma int_div_nonneg: "0 \<le> x \<Longrightarrow> 0 < T \<Longrightarrow> 0 \<le> x div T" for x T :: int
  by (simp add: pos_imp_zdiv_nonneg_iff)

lemma uint_carry_out:
  fixes p q :: "'a::len word"
  assumes "2 \<le> LENGTH('a)"
  shows "uint (carry_out p q) = (uint p + uint q) div 2 ^ LENGTH('a)"
proof -
  define T :: int where "T = 2 ^ (LENGTH('a) - 1)"
  define N :: int where "N = 2 ^ LENGTH('a)"
  have T: "0 < T" by (simp add: T_def)
  have "LENGTH('a) = Suc (LENGTH('a) - 1)" by simp
  then have "(2::int) ^ LENGTH('a) = 2 * 2 ^ (LENGTH('a) - 1)"
    by (metis power_Suc)
  then have N: "N = 2 * T" by (simp add: N_def T_def)
  have "(2::int) ^ 1 \<le> 2 ^ (LENGTH('a) - 1)"
    using assms by (intro power_increasing) simp_all
  then have T2: "2 \<le> T" by (simp add: T_def)
  let ?P = "uint p" and ?Q = "uint q"
  have pm: "0 \<le> ?P mod T" "?P mod T < T" and qm: "0 \<le> ?Q mod T" "?Q mod T < T"
    using T by simp_all
  have pd: "0 \<le> ?P div T" "?P div T < 2" and qd: "0 \<le> ?Q div T" "?Q div T < 2"
  proof -
    have "?P < 2 * T" "?Q < 2 * T"
      using uint_lt2p [of p] uint_lt2p [of q] unfolding N_def [symmetric] N by simp_all
    then show "?P div T < 2" "?Q div T < 2"
      using T by (simp_all add: int_div_less)
    show "0 \<le> ?P div T" "0 \<le> ?Q div T"
      using T by (simp_all add: int_div_nonneg)
  qed
  have cin_b: "0 \<le> (?P mod T + ?Q mod T) div T" "(?P mod T + ?Q mod T) div T < 2"
  proof -
    have "?P mod T + ?Q mod T < 2 * T" "0 \<le> ?P mod T + ?Q mod T"
      using pm qm by linarith+
    then show "0 \<le> (?P mod T + ?Q mod T) div T" "(?P mod T + ?Q mod T) div T < 2"
      using T by (simp_all add: int_div_less int_div_nonneg)
  qed
  define tb where "tb = LENGTH('a) - 1"
  define um :: "'a word" where "um = push_bit tb 1 - 1"
  have Td: "T = 2 ^ tb" by (simp add: T_def tb_def)
  have Nd: "2 ^ LENGTH('a) = 2 * T" using N by (simp add: N_def)
  have pl: "uint (p AND um) = ?P mod T" and ql: "uint (q AND um) = ?Q mod T"
    unfolding um_def Td by (rule uint_and_low)+
  have pu: "uint (drop_bit tb p) = ?P div T" and qu: "uint (drop_bit tb q) = ?Q div T"
    unfolding Td by (rule uint_drop_bit)+
  have s1: "uint ((p AND um) + (q AND um)) = ?P mod T + ?Q mod T"
  proof -
    have "uint (p AND um) + uint (q AND um) < 2 ^ LENGTH('a)"
      unfolding pl ql Nd using pm qm by linarith
    from uint_add_small [OF this] show ?thesis
      unfolding pl ql .
  qed
  have cin: "uint (drop_bit tb ((p AND um) + (q AND um))) = (?P mod T + ?Q mod T) div T"
    unfolding uint_drop_bit s1 Td ..
  have s2: "uint (drop_bit tb p + drop_bit tb q) = ?P div T + ?Q div T"
  proof -
    have "uint (drop_bit tb p) + uint (drop_bit tb q) < 2 ^ LENGTH('a)"
      unfolding pu qu Nd using pd qd T2 by linarith
    from uint_add_small [OF this] show ?thesis
      unfolding pu qu .
  qed
  have s3: "uint (drop_bit tb p + drop_bit tb q + drop_bit tb ((p AND um) + (q AND um)))
      = ?P div T + ?Q div T + (?P mod T + ?Q mod T) div T"
  proof -
    have "uint (drop_bit tb p + drop_bit tb q) + uint (drop_bit tb ((p AND um) + (q AND um)))
        < 2 ^ LENGTH('a)"
      unfolding s2 cin Nd using pd qd cin_b T2 by linarith
    from uint_add_small [OF this] show ?thesis
      unfolding s2 cin .
  qed
  have "carry_out p q
      = drop_bit 1 (drop_bit tb p + drop_bit tb q + drop_bit tb ((p AND um) + (q AND um)))"
    unfolding carry_out_def Let_def um_def tb_def ..
  then have "uint (carry_out p q)
      = (?P div T + ?Q div T + (?P mod T + ?Q mod T) div T) div 2 ^ 1"
    by (simp only: uint_drop_bit s3)
  also have "\<dots> = (?P + ?Q) div (2 * T)"
    using carry_int [OF T, of ?P ?Q] by simp
  finally show ?thesis
    by (simp only: N_def [symmetric] N)
qed

lemma carry_out_small:
  fixes x q :: "'a::len word"
  assumes "drop_bit (LENGTH('a) - 1) q = 0"
  shows "drop_bit 1 (drop_bit (LENGTH('a) - 1) ((x AND (push_bit (LENGTH('a) - 1) 1 - 1)) + q)
           + drop_bit (LENGTH('a) - 1) x) = carry_out x q"
proof -
  have "take_bit (LENGTH('a) - 1) q = q"
    using assms by (simp only: take_bit_eq_self_iff_drop_bit_eq_0)
  then have "q AND (push_bit (LENGTH('a) - 1) 1 - 1) = q"
    by (simp add: and_pow2_minus_1)
  then show ?thesis
    unfolding carry_out_def Let_def assms by (simp only: add_0_left add_0_right add.commute)
qed

lemma drop_bit_drop_half:
  fixes w :: "'a::len word"
  assumes "LENGTH('a) = 2 * h" "0 < h"
  shows "drop_bit (LENGTH('a) - 1) (drop_bit h w) = 0"
proof (rule bit_word_eqI)
  fix n assume "n < LENGTH('a)"
  have "\<not> bit w (h + (LENGTH('a) - 1 + n))"
    using assms by (auto dest!: bit_imp_le_length)
  then show "bit (drop_bit (LENGTH('a) - 1) (drop_bit h w)) n \<longleftrightarrow> bit (0 :: 'a word) n"
    by (simp add: bit_drop_bit_eq ac_simps)
qed

lemma mul_unsigned_eq:
  fixes r0 r1 :: "'a::len word"
  assumes L: "LENGTH('a) = 2 * h" and h: "0 < h"
  defines "msk \<equiv> push_bit h (1 :: 'a word) - 1"
  defines "a \<equiv> drop_bit h r0" and "b \<equiv> r0 AND msk" and "c \<equiv> drop_bit h r1" and "d \<equiv> r1 AND msk"
  defines "x \<equiv> d * a + c * b"
  defines "y \<equiv> drop_bit h (d * b) + x"
  shows "mul_unsigned r0 r1 =
    (drop_bit h y + c * a + push_bit h (carry_out x (drop_bit h (d * b)) + carry_out (d * a) (c * b)),
     (d * b AND msk) OR push_bit h (y AND msk))"
proof -
  have bits: "LENGTH('a) div 2 = h"
    using L by simp
  have "drop_bit (LENGTH('a) - 1) (drop_bit h (d * b)) = 0"
    using L h by (rule drop_bit_drop_half)
  note cy = carry_out_small [OF this, of x]
  have cx: "carry_out (d * a) (c * b) =
      drop_bit 1 (drop_bit (LENGTH('a) - 1) (d * a) + drop_bit (LENGTH('a) - 1) (c * b)
          + drop_bit (LENGTH('a) - 1) ((d * a AND (push_bit (LENGTH('a) - 1) 1 - 1)) + (c * b AND (push_bit (LENGTH('a) - 1) 1 - 1))))"
    unfolding carry_out_def Let_def ..
  show ?thesis
    unfolding mul_unsigned_def Let_def bits cy [symmetric] cx
    unfolding y_def x_def a_def b_def c_def d_def msk_def ..
qed

lemma uint_mult_small:
  fixes a b :: "'a::len word"
  assumes "uint a * uint b < 2 ^ LENGTH('a)"
  shows "uint (a * b) = uint a * uint b"
proof -
  have "0 \<le> uint a * uint b" by simp
  then have "(uint a * uint b) mod 2 ^ LENGTH('a) = uint a * uint b"
    using assms by (rule mod_pos_pos_trivial)
  then show ?thesis
    by (simp only: uint_word_ariths)
qed

lemma int_mult_less_square:
  fixes a b H :: int
  assumes "0 \<le> a" "a < H" "0 \<le> b" "b < H"
  shows "a * b < H * H"
  using assms by (intro mult_strict_mono') simp_all

lemma low_or_high_eq_add:
  fixes t s :: "'a::len word"
  shows "(t AND (push_bit h 1 - 1)) OR push_bit h s = (t AND (push_bit h 1 - 1)) + push_bit h s"
proof -
  have "take_bit h t + push_bit h s = take_bit h t OR push_bit h s"
    by (rule disjunctive_add) (auto simp: bit_take_bit_iff bit_push_bit_iff)
  then show ?thesis
    by (simp add: and_pow2_minus_1)
qed

lemma product_algebra:
  fixes A B C D H N X XC Q BL Y YC YH YL :: int
  assumes "N = H * H"
    and "D * A + C * B = X + N * XC"
    and "D * B = Q * H + BL"
    and "X + Q = Y + N * YC"
    and "Y = YH * H + YL"
  shows "(YH + C * A + (YC + XC) * H) * N + (BL + YL * H) = (A * H + B) * (C * H + D)"
  using assms by algebra

lemma uint_add_mod: "uint (a + b) = (uint a + uint b) mod 2 ^ LENGTH('a)" for a b :: "'a::len word"
  by (simp only: uint_word_ariths)

lemma mul_unsigned_value:
  fixes r0 r1 :: "'a::len word"
  assumes L: "LENGTH('a) = 2 * h" and h: "0 < h"
  shows "hilo_value Unsigned (mul_unsigned r0 r1) = uint r0 * uint r1"
proof -
  define H :: int where "H = 2 ^ h"
  define N :: int where "N = 2 ^ LENGTH('a)"
  have H0: "0 < H" by (simp add: H_def)
  have NH: "N = H * H"
    unfolding N_def H_def L by (simp add: mult_2 power_add)
  have N0: "0 < N" by (simp add: N_def)
  have L2: "2 \<le> LENGTH('a)" using L h by simp
  define msk :: "'a word" where "msk = push_bit h 1 - 1"
  define a b c d where "a = drop_bit h r0" and "b = r0 AND msk"
    and "c = drop_bit h r1" and "d = r1 AND msk"
  define x where "x = d * a + c * b"
  define q where "q = drop_bit h (d * b)"
  define y where "y = q + x"
  define xc where "xc = carry_out (d * a) (c * b)"
  define yc where "yc = carry_out x q"
  define lo where "lo = (d * b AND msk) OR push_bit h (y AND msk)"
  define hi where "hi = drop_bit h y + c * a + push_bit h (yc + xc)"
  have eq: "mul_unsigned r0 r1 = (hi, lo)"
    unfolding mul_unsigned_eq [OF L h] hi_def lo_def yc_def xc_def y_def q_def x_def
      a_def b_def c_def d_def msk_def ..
  define A B C D where "A = uint r0 div H" and "B = uint r0 mod H"
    and "C = uint r1 div H" and "D = uint r1 mod H"
  have ua: "uint a = A" and uc: "uint c = C"
    unfolding a_def c_def A_def C_def H_def by (rule uint_drop_bit)+
  have ub: "uint b = B" and ud: "uint d = D"
    unfolding b_def d_def B_def D_def H_def msk_def by (rule uint_and_low)+
  have r0: "uint r0 = A * H + B" and r1: "uint r1 = C * H + D"
    unfolding A_def B_def C_def D_def by simp_all
  have bA: "0 \<le> A" "A < H" and bC: "0 \<le> C" "C < H"
  proof -
    have "uint r0 < H * H" "uint r1 < H * H"
      using uint_lt2p [of r0] uint_lt2p [of r1] unfolding N_def [symmetric] NH by simp_all
    then show "A < H" "C < H"
      unfolding A_def C_def using H0 by (simp_all add: int_div_less)
    show "0 \<le> A" "0 \<le> C"
      unfolding A_def C_def using H0 by (simp_all add: int_div_nonneg)
  qed
  have bB: "0 \<le> B" "B < H" and bD: "0 \<le> D" "D < H"
    unfolding B_def D_def using H0 by simp_all
  have uda: "uint (d * a) = D * A" and udb: "uint (d * b) = D * B"
    and uca: "uint (c * a) = C * A" and ucb: "uint (c * b) = C * B"
  proof -
    have s: "uint d * uint a < 2 ^ LENGTH('a)" "uint d * uint b < 2 ^ LENGTH('a)"
      "uint c * uint a < 2 ^ LENGTH('a)" "uint c * uint b < 2 ^ LENGTH('a)"
      unfolding ua ub uc ud N_def [symmetric] NH
      using bA bB bC bD by (simp_all add: int_mult_less_square)
    show "uint (d * a) = D * A" "uint (d * b) = D * B"
      "uint (c * a) = C * A" "uint (c * b) = C * B"
      using s [THEN uint_mult_small] unfolding ua ub uc ud by blast+
  qed
  define X XC where "X = uint x" and "XC = uint xc"
  have X: "X = (D * A + C * B) mod N"
    unfolding X_def x_def N_def by (simp only: uint_add_mod uda ucb)
  have XC: "XC = (D * A + C * B) div N"
    unfolding XC_def xc_def N_def uint_carry_out [OF L2] uda ucb ..
  have e2: "D * A + C * B = X + N * XC"
    unfolding X XC by simp
  define Q BL where "Q = D * B div H" and "BL = D * B mod H"
  have uq: "uint q = Q"
    unfolding q_def Q_def H_def uint_drop_bit udb ..
  have e3: "D * B = Q * H + BL"
    unfolding Q_def BL_def by simp
  define Y YC where "Y = uint y" and "YC = uint yc"
  have Y: "Y = (Q + X) mod N"
    unfolding Y_def y_def N_def X_def by (simp only: uint_add_mod uq)
  have YC: "YC = (X + Q) div N"
    unfolding YC_def yc_def N_def uint_carry_out [OF L2] uq X_def ..
  have e4: "X + Q = Y + N * YC"
    unfolding Y YC by (simp add: add.commute)
  define YH YL where "YH = Y div H" and "YL = Y mod H"
  have e5: "Y = YH * H + YL"
    unfolding YH_def YL_def by simp
  have bYL: "0 \<le> YL" "YL < H" and bBL: "0 \<le> BL" "BL < H"
    unfolding YL_def BL_def using H0 by simp_all
  have main: "(YH + C * A + (YC + XC) * H) * N + (BL + YL * H) = uint r0 * uint r1"
    unfolding r0 r1 using NH e2 e3 e4 e5 by (rule product_algebra)
  have LO: "0 \<le> BL + YL * H" "BL + YL * H < N"
  proof -
    show "0 \<le> BL + YL * H"
      using bYL bBL H0 by simp
    have "YL * H \<le> (H - 1) * H"
      using bYL H0 by (intro mult_right_mono) simp_all
    then show "BL + YL * H < N"
      unfolding NH using bBL by (simp add: algebra_simps)
  qed
  have ulo: "uint lo = BL + YL * H"
  proof -
    have "uint (d * b AND msk) = BL"
      unfolding BL_def H_def msk_def uint_and_low udb ..
    moreover have "uint (y AND msk) = YL"
      unfolding YL_def H_def msk_def uint_and_low Y_def ..
    then have "uint (push_bit h (y AND msk)) = (YL * H) mod N"
      unfolding uint_push_bit H_def N_def by simp
    moreover have "(YL * H) mod N = YL * H"
      using LO bYL bBL H0 by (intro mod_pos_pos_trivial) simp_all
    moreover have "lo = (d * b AND msk) + push_bit h (y AND msk)"
      unfolding lo_def msk_def by (rule low_or_high_eq_add)
    ultimately show ?thesis
      using LO by (simp add: uint_add_small N_def)
  qed
  define E where "E = YH + C * A + (YC + XC) * H"
  have E: "0 \<le> E" "E < N"
  proof -
    have "0 \<le> Y" "0 \<le> X" "0 \<le> XC" "0 \<le> YC"
      unfolding Y_def X_def XC_def YC_def by simp_all
    then have "0 \<le> YH"
      unfolding YH_def using H0 by (simp add: int_div_nonneg)
    with \<open>0 \<le> XC\<close> \<open>0 \<le> YC\<close> bA bC H0 show "0 \<le> E"
      unfolding E_def by simp
    have "E * N + (BL + YL * H) = uint r0 * uint r1"
      using main unfolding E_def .
    moreover have "uint r0 * uint r1 < N * N"
      unfolding N_def using uint_lt2p [of r0] uint_lt2p [of r1]
      by (intro int_mult_less_square) simp_all
    ultimately have "E * N < N * N"
      using LO by linarith
    then show "E < N"
      using N0 by (simp add: mult_less_cancel_right)
  qed
  have uhi: "uint hi = E"
  proof -
    have "uint hi = (YH + C * A + ((YC + XC) mod N * H) mod N) mod N"
      unfolding hi_def
      by (simp only: uint_add_mod uint_push_bit uint_drop_bit uca
          YH_def Y_def H_def N_def YC_def XC_def mod_simps)
    also have "\<dots> = E mod N"
      unfolding E_def by (simp add: mod_simps)
    also have "\<dots> = E"
      using E by (rule mod_pos_pos_trivial)
    finally show ?thesis .
  qed
  show ?thesis
    unfolding eq hilo_value_unsigned uhi ulo N_def [symmetric] using main unfolding E_def .
qed

lemma sint_cases:
  fixes w :: "'a::len word"
  shows "sint w = (if uint w < 2 ^ (LENGTH('a) - 1) then uint w else uint w - 2 ^ LENGTH('a))"
proof -
  define s where "s = (if uint w < 2 ^ (LENGTH('a) - 1) then uint w else uint w - 2 ^ LENGTH('a))"
  have "LENGTH('a) = Suc (LENGTH('a) - 1)" by simp
  then have N: "(2::int) ^ LENGTH('a) = 2 * 2 ^ (LENGTH('a) - 1)"
    by (metis power_Suc)
  have b: "- (2 ^ (LENGTH('a) - 1)) \<le> s \<and> s < 2 ^ (LENGTH('a) - 1)"
  proof (cases "uint w < 2 ^ (LENGTH('a) - 1)")
    case True
    then have "s = uint w" by (simp add: s_def)
    moreover have "(0::int) < 2 ^ (LENGTH('a) - 1)" by simp
    ultimately show ?thesis
      using True uint_ge_0 [of w] by linarith
  next
    case False
    then have "s = uint w - 2 ^ LENGTH('a)" by (simp add: s_def)
    then show ?thesis
      using False uint_lt2p [of w] N by linarith
  qed
  then have "signed_take_bit (LENGTH('a) - 1) s = s"
    by (intro signed_take_bit_int_eq_self) simp_all
  moreover have "word_of_int s = w"
    unfolding s_def by (simp add: word_of_int_2p_len)
  then have "sint w = sint (word_of_int s :: 'a word)"
    by simp
  ultimately show ?thesis
    unfolding s_def [symmetric] by (simp only: sint_sbintrunc')
qed

lemma uint_abs:
  fixes r :: "'a::len word"
  shows "uint (if isNegative Signed r then - r else r) = \<bar>sint r\<bar>"
proof -
  have "LENGTH('a) = Suc (LENGTH('a) - 1)" by simp
  then have N: "(2::int) ^ LENGTH('a) = 2 * 2 ^ (LENGTH('a) - 1)"
    by (metis power_Suc)
  show ?thesis
  proof (cases "uint r < 2 ^ (LENGTH('a) - 1)")
    case True
    then have "sint r = uint r"
      by (simp add: sint_cases)
    then show ?thesis
      by (simp add: isNegative_def)
  next
    case False
    then have s: "sint r = uint r - 2 ^ LENGTH('a)"
      by (simp add: sint_cases)
    then have neg: "sint r < 0"
      using uint_lt2p [of r] by simp
    have "0 \<le> 2 ^ LENGTH('a) - uint r" "2 ^ LENGTH('a) - uint r < 2 ^ LENGTH('a)"
      using uint_lt2p [of r] False N by simp_all
    then have "(2 ^ LENGTH('a) - uint r) mod 2 ^ LENGTH('a) = 2 ^ LENGTH('a) - uint r"
      by (rule mod_pos_pos_trivial)
    moreover have "uint (- r) = (2 ^ LENGTH('a) - uint r) mod 2 ^ LENGTH('a)"
      by (simp add: uint_word_ariths)
    ultimately have "uint (- r) = - sint r"
      using s by simp
    with neg show ?thesis
      by (simp add: isNegative_def)
  qed
qed

lemma sint_bounds_abs: "\<bar>sint r\<bar> \<le> 2 ^ (LENGTH('a) - 1)" for r :: "'a::len word"
  using sint_ge [of r] sint_lt [of r] by simp

lemma negate_hilo_eq:
  fixes hi lo :: "'a::len word"
  assumes "2 \<le> LENGTH('a)"
  shows "negate_hilo (hi, lo) = (NOT hi + carry_out (NOT lo) 1, - lo)"
proof -
  have tb: "0 < LENGTH('a) - 1"
    using assms by simp
  have "drop_bit (LENGTH('a) - 1) (1 :: 'a word) = 0"
    by (rule bit_word_eqI) (use tb in \<open>simp add: bit_drop_bit_eq bit_1_iff\<close>)
  from carry_out_small [OF this, of "NOT lo"] show ?thesis
    unfolding negate_hilo_def Let_def fst_conv snd_conv
    by (simp only: add.commute)
qed

lemma uint_not: "uint (NOT w) = 2 ^ LENGTH('a) - 1 - uint w" for w :: "'a::len word"
proof -
  have "0 \<le> 2 ^ LENGTH('a) - 1 - uint w" "2 ^ LENGTH('a) - 1 - uint w < 2 ^ LENGTH('a)"
    using uint_lt2p [of w] uint_ge_0 [of w] by linarith+
  then have "(2 ^ LENGTH('a) - 1 - uint w) mod 2 ^ LENGTH('a) = 2 ^ LENGTH('a) - 1 - uint w"
    by (rule mod_pos_pos_trivial)
  moreover have "NOT w = - w - 1"
    by (rule not_eq_complement)
  then have "uint (NOT w) = (- uint w - 1) mod 2 ^ LENGTH('a)"
    by (simp only: uint_word_ariths mod_simps uint_1)
  moreover have "(- uint w - 1) mod 2 ^ LENGTH('a) = (2 ^ LENGTH('a) - 1 - uint w) mod 2 ^ LENGTH('a)"
  proof -
    have "2 ^ LENGTH('a) - 1 - uint w = (- uint w - 1) + 1 * 2 ^ LENGTH('a)"
      by simp
    then show ?thesis
      by (simp only: mod_mult_self1)
  qed
  ultimately show ?thesis
    by simp
qed

lemma negate_hilo_value:
  fixes hi lo :: "'a::len word"
  assumes "2 \<le> LENGTH('a)"
  shows "hilo_value Unsigned (negate_hilo (hi, lo))
    = (- hilo_value Unsigned (hi, lo)) mod (2 ^ LENGTH('a) * 2 ^ LENGTH('a))"
proof -
  define N :: int where "N = 2 ^ LENGTH('a)"
  define sc where "sc = carry_out (NOT lo) 1"
  define SC where "SC = uint sc"
  define r where "r = N - SC * N - uint lo"
  have N0: "0 < N" by (simp add: N_def)
  have lo: "0 \<le> uint lo" "uint lo < N"
    unfolding N_def by simp_all
  have "SC = (N - 1 - uint lo + 1) div N"
    unfolding SC_def sc_def uint_carry_out [OF assms] uint_not N_def by simp
  then have SC': "SC = (N - uint lo) div N"
    by simp
  have SC: "SC = (if uint lo = 0 then 1 else 0)"
  proof (cases "uint lo = 0")
    case True
    then show ?thesis unfolding SC' using N0 by simp
  next
    case False
    then have "0 \<le> N - uint lo" "N - uint lo < N"
      using lo by linarith+
    then have "(N - uint lo) div N = 0"
      by (rule div_pos_pos_trivial)
    with False show ?thesis unfolding SC' by simp
  qed
  have r: "0 \<le> r" "r < N"
  proof -
    show "0 \<le> r"
    proof (cases "uint lo = 0")
      case True
      then show ?thesis by (simp add: r_def SC)
    next
      case False
      then have "r = N - uint lo" by (simp add: r_def SC)
      with lo show ?thesis by linarith
    qed
    show "r < N"
    proof (cases "uint lo = 0")
      case True
      with N0 show ?thesis by (simp add: r_def SC)
    next
      case False
      then have "r = N - uint lo" "0 < uint lo"
        using lo(1) by (simp_all add: r_def SC less_le)
      then show ?thesis by linarith
    qed
  qed
  have "r = - uint lo + (1 - SC) * N"
    unfolding r_def by (simp add: algebra_simps)
  then have "r mod N = (- uint lo) mod N"
    by (simp only: mod_mult_self1)
  then have "(- uint lo) mod N = r mod N"
    by simp
  also have "\<dots> = r"
    using r by (rule mod_pos_pos_trivial)
  finally have ulo: "uint (- lo) = r"
    unfolding N_def by (simp only: uint_word_ariths)
  have uhi: "uint (NOT hi + sc) = (- uint hi - 1 + SC) mod N"
  proof -
    have "uint (NOT hi + sc) = (N - 1 - uint hi + SC) mod N"
      unfolding SC_def N_def by (simp only: uint_add_mod uint_not)
    also have "N - 1 - uint hi + SC = (- uint hi - 1 + SC) + 1 * N"
      by simp
    also have "(- uint hi - 1 + SC + 1 * N) mod N = (- uint hi - 1 + SC) mod N"
      by (simp only: mod_mult_self1)
    finally show ?thesis .
  qed
  have "hilo_value Unsigned (negate_hilo (hi, lo)) = ((- uint hi - 1 + SC) mod N) * N + r"
    unfolding negate_hilo_eq [OF assms] hilo_value_unsigned sc_def [symmetric] uhi ulo N_def ..
  also have "\<dots> = ((- uint hi - 1 + SC) * N + r) mod (N * N)"
    by (rule hilo_mod [OF r, symmetric])
  also have "(- uint hi - 1 + SC) * N + r = - (uint hi * N + uint lo)"
    unfolding r_def by (simp add: algebra_simps)
  finally show ?thesis
    unfolding hilo_value_unsigned N_def .
qed

lemma hilo_signed_cases:
  fixes p :: "'a::len word \<times> 'a word"
  shows "hilo_value Signed p =
    (if hilo_value Unsigned p < 2 ^ (LENGTH('a) - 1) * 2 ^ LENGTH('a)
     then hilo_value Unsigned p
     else hilo_value Unsigned p - 2 ^ LENGTH('a) * 2 ^ LENGTH('a))"
proof -
  obtain hi lo where p: "p = (hi, lo)" by (cases p)
  define N :: int where "N = 2 ^ LENGTH('a)"
  define T :: int where "T = 2 ^ (LENGTH('a) - 1)"
  have N0: "0 < N" by (simp add: N_def)
  have lo: "0 \<le> uint lo" "uint lo < N"
    unfolding N_def by simp_all
  have iff: "uint hi * N + uint lo < T * N \<longleftrightarrow> uint hi < T"
  proof
    assume "uint hi * N + uint lo < T * N"
    with lo have "uint hi * N < T * N" by linarith
    then show "uint hi < T"
      using N0 by (simp add: mult_less_cancel_right)
  next
    assume "uint hi < T"
    then have "uint hi + 1 \<le> T" by simp
    then have "(uint hi + 1) * N \<le> T * N"
      using N0 by (intro mult_right_mono) simp_all
    moreover have "(uint hi + 1) * N = uint hi * N + N"
      by (simp add: algebra_simps)
    ultimately show "uint hi * N + uint lo < T * N"
      using lo by linarith
  qed
  have s: "hilo_value Signed (hi, lo) = sint hi * N + uint lo"
    by (simp add: hilo_value_def cvalue_def N_def)
  show ?thesis
  proof (cases "uint hi < T")
    case True
    then have "sint hi = uint hi"
      by (simp add: sint_cases T_def)
    with True iff show ?thesis
      unfolding p s hilo_value_unsigned N_def [symmetric] T_def [symmetric] by simp
  next
    case False
    then have e: "sint hi = uint hi - N"
      by (simp add: sint_cases T_def N_def)
    have "(uint hi - N) * N + uint lo = uint hi * N + uint lo - N * N"
      by (simp add: algebra_simps)
    with False iff show ?thesis
      unfolding p s hilo_value_unsigned N_def [symmetric] T_def [symmetric] e by simp
  qed
qed

lemma multiplyHiLo_unsigned:
  "multiplyHiLo Unsigned r0 r1 = mul_unsigned r0 r1"
  by (simp add: multiplyHiLo_decomp isNegative_def)

lemma multiplyHiLo_value:
  fixes r0 r1 :: "'a::len word"
  assumes L: "LENGTH('a) = 2 * h" and h: "0 < h"
  shows "hilo_value sg (multiplyHiLo sg r0 r1) = cvalue sg r0 * cvalue sg r1"
proof (cases sg)
  case Unsigned
  then show ?thesis
    by (simp add: multiplyHiLo_unsigned mul_unsigned_value [OF L h] cvalue_def)
next
  case Signed
  define N :: int where "N = 2 ^ LENGTH('a)"
  define T :: int where "T = 2 ^ (LENGTH('a) - 1)"
  have L2: "2 \<le> LENGTH('a)" using L h by simp
  have "LENGTH('a) = Suc (LENGTH('a) - 1)" by simp
  then have "(2::int) ^ LENGTH('a) = 2 * 2 ^ (LENGTH('a) - 1)"
    by (metis power_Suc)
  then have NT: "N = 2 * T" by (simp add: N_def T_def)
  have T0: "0 < T" by (simp add: T_def)
  define n0 n1 where "n0 = isNegative Signed r0" and "n1 = isNegative Signed r1"
  define p where "p = mul_unsigned (if n0 then - r0 else r0) (if n1 then - r1 else r1)"
  define P where "P = \<bar>sint r0\<bar> * \<bar>sint r1\<bar>"
  have res: "multiplyHiLo Signed r0 r1 = (if n0 \<noteq> n1 then negate_hilo p else p)"
    unfolding multiplyHiLo_decomp Let_def p_def n0_def n1_def ..
  have up: "hilo_value Unsigned p = P"
    unfolding p_def P_def mul_unsigned_value [OF L h] n0_def n1_def uint_abs ..
  have P0: "0 \<le> P" by (simp add: P_def)
  have "\<bar>sint r0\<bar> * \<bar>sint r1\<bar> \<le> T * T"
    unfolding T_def by (intro mult_mono sint_bounds_abs) simp_all
  then have PT: "P \<le> T * T" by (simp add: P_def)
  have TT: "T * T < T * N" "T * T + T * N \<le> N * N"
    using T0 unfolding NT by (simp_all add: algebra_simps)
  have hs: "hilo_value Signed q =
      (if hilo_value Unsigned q < T * N then hilo_value Unsigned q
       else hilo_value Unsigned q - N * N)" for q :: "'a word \<times> 'a word"
    unfolding T_def N_def by (rule hilo_signed_cases)
  have sgn0: "sint r0 < 0 \<longleftrightarrow> n0" and sgn1: "sint r1 < 0 \<longleftrightarrow> n1"
    by (simp_all add: n0_def n1_def isNegative_def)
  show ?thesis
  proof (cases "n0 = n1")
    case True
    then have "multiplyHiLo Signed r0 r1 = p"
      by (simp add: res)
    moreover have "P < T * N"
      using PT TT by linarith
    then have "hilo_value Signed p = P"
      by (simp add: hs up)
    moreover have "sint r0 * sint r1 = P"
    proof (cases n0)
      case True
      with \<open>n0 = n1\<close> sgn0 sgn1 show ?thesis
        by (simp add: P_def)
    next
      case False
      with \<open>n0 = n1\<close> sgn0 sgn1 show ?thesis
        by (simp add: P_def)
    qed
    ultimately show ?thesis
      by (simp add: Signed cvalue_def)
  next
    case False
    then have r: "multiplyHiLo Signed r0 r1 = negate_hilo p"
      by (simp add: res)
    have un: "hilo_value Unsigned (negate_hilo p) = (- P) mod (N * N)"
      using negate_hilo_value [OF L2, of "fst p" "snd p"] by (simp add: up N_def)
    have prod: "sint r0 * sint r1 = - P"
    proof (cases n0)
      case True
      with False sgn0 sgn1 show ?thesis
        by (simp add: P_def)
    next
      case n: False
      with False sgn0 sgn1 show ?thesis
        by (simp add: P_def)
    qed
    have "hilo_value Signed (negate_hilo p) = - P"
    proof (cases "P = 0")
      case True
      then have "hilo_value Unsigned (negate_hilo p) = 0"
        by (simp add: un)
      moreover have "0 < T * N"
        using T0 NT by simp
      ultimately show ?thesis
        using True by (simp add: hs)
    next
      case False
      with P0 have "0 < P" by simp
      then have "0 \<le> N * N - P" "N * N - P < N * N"
        using PT TT T0 by linarith+
      then have m: "(N * N - P) mod (N * N) = N * N - P"
        by (rule mod_pos_pos_trivial)
      have "N * N - P = - P + 1 * (N * N)" by simp
      then have "(N * N - P) mod (N * N) = (- P) mod (N * N)"
        by (simp only: mod_mult_self1)
      with m un have u: "hilo_value Unsigned (negate_hilo p) = N * N - P"
        by (simp only:)
      have "\<not> N * N - P < T * N"
        using PT TT by linarith
      with u show ?thesis
        by (simp add: hs)
    qed
    with r prod show ?thesis
      by (simp add: Signed cvalue_def)
  qed
qed

lemma uint_word_cat_32:
  "uint (word_cat hi lo :: 64 word) = uint hi * 2 ^ 32 + uint lo" for hi lo :: "32 word"
proof -
  have lo: "0 \<le> uint lo" "uint lo < 2 ^ 32" and hi: "0 \<le> uint hi" "uint hi < 2 ^ 32"
    using uint_lt2p [of lo] uint_lt2p [of hi] by simp_all
  have "(uint hi + 1) * 2 ^ 32 \<le> (2 ^ 32 :: int) * 2 ^ 32"
    using hi by (intro mult_right_mono) simp_all
  then have b: "0 \<le> uint hi * 2 ^ 32 + uint lo" "uint hi * 2 ^ 32 + uint lo < 2 ^ 64"
    using lo hi by (simp_all add: algebra_simps)
  have "concat_bit 32 (uint lo) (uint hi) = take_bit 32 (uint lo) + push_bit 32 (uint hi)"
    by (rule concat_bit_eq)
  also have "take_bit 32 (uint lo) = uint lo"
    using lo by (simp add: take_bit_int_eq_self)
  also have "push_bit 32 (uint hi) = uint hi * 2 ^ 32"
    by (rule push_bit_eq_mult)
  finally have c: "concat_bit 32 (uint lo) (uint hi) = uint hi * 2 ^ 32 + uint lo"
    by simp
  have c': "concat_bit LENGTH(32) (uint lo) (uint hi) = uint hi * 2 ^ 32 + uint lo"
    using c by simp
  have "(word_cat hi lo :: 64 word) = word_of_int (uint hi * 2 ^ 32 + uint lo)"
    by (simp only: word_cat_eq' c')
  then have "uint (word_cat hi lo :: 64 word) = (uint hi * 2 ^ 32 + uint lo) mod 2 ^ LENGTH(64)"
    by (simp only: uint_word_of_int)
  then have "uint (word_cat hi lo :: 64 word) = (uint hi * 2 ^ 32 + uint lo) mod 2 ^ 64"
    by simp
  also have "\<dots> = uint hi * 2 ^ 32 + uint lo"
    using b by (rule mod_pos_pos_trivial)
  finally show ?thesis .
qed

lemma hilo_value_word_cat_32:
  "hilo_value sg (hi, lo) = cvalue sg (word_cat hi lo :: 64 word)" for hi lo :: "32 word"
proof (cases sg)
  case Unsigned
  then show ?thesis
    by (simp add: hilo_value_unsigned cvalue_def uint_word_cat_32)
next
  case Signed
  have u: "hilo_value Unsigned (hi, lo) = uint (word_cat hi lo :: 64 word)"
    by (simp add: hilo_value_unsigned uint_word_cat_32)
  have "hilo_value Signed (hi, lo) = sint (word_cat hi lo :: 64 word)"
    unfolding hilo_signed_cases [of "(hi, lo)"] sint_cases [of "word_cat hi lo :: 64 word"] u
    by simp
  with Signed show ?thesis
    by (simp add: cvalue_def)
qed

text \<open>
  Claim C1. For 32-bit operands, signed or unsigned, the pair returned by
  \<^verbatim>\<open>multiplyHiLo\<close>, concatenated to a 64-bit word and read as the operands are read (two's
  complement or unsigned), is the exact product of the two operands; and for the signed
  operands \<open>0x80000000\<close> and \<open>-1\<close> the pair is \<open>(0, 0x80000000)\<close>. (For every even width:
  \<open>multiplyHiLo_value\<close>.)
\<close>

theorem multiplyHiLo_exact_32:
  fixes r0 r1 :: "32 word"
  shows "cvalue sg (word_cat (fst (multiplyHiLo sg r0 r1)) (snd (multiplyHiLo sg r0 r1)) :: 64 word)
      = cvalue sg r0 * cvalue sg r1 \<and>
    multiplyHiLo Signed (0x80000000 :: 32 word) (- 1) = (0, 0x80000000)"
proof
  have "hilo_value sg (multiplyHiLo sg r0 r1) = cvalue sg r0 * cvalue sg r1"
    by (rule multiplyHiLo_value [of 16]) simp_all
  moreover have "hilo_value sg (multiplyHiLo sg r0 r1)
      = hilo_value sg (fst (multiplyHiLo sg r0 r1), snd (multiplyHiLo sg r0 r1))"
    by simp
  ultimately show "cvalue sg (word_cat (fst (multiplyHiLo sg r0 r1)) (snd (multiplyHiLo sg r0 r1)) :: 64 word)
      = cvalue sg r0 * cvalue sg r1"
    by (simp only: hilo_value_word_cat_32)
  show "multiplyHiLo Signed (0x80000000 :: 32 word) (- 1) = (0, 0x80000000)"
    by (simp add: multiplyHiLo_def isNegative_def Let_def)
qed

end
